theory Spec2Isabelle
  imports Complex_Main "HOL-Library.Word"
begin

unbundle bit_operations_syntax

section \<open>JavaScript values used by the simulation core\<close>

text \<open>
  Numbers are modelled as exact reals (IEEE rounding and infinities are outside the
  model); integers that the code uses as indices, seeds and bounds are \<open>int\<close>, node
  counts and array lengths are \<open>nat\<close>. Reading an array outside its bounds yields
  \<open>undefined\<close> in JavaScript: \<open>js_get\<close> returns \<open>None\<close> there. Calling a method or
  reading \<open>.length\<close> on \<open>undefined\<close> throws a \<open>TypeError\<close>; the generators throw
  \<open>Error\<close> objects for bad parameters.
\<close>

datatype error = InvalidParameter | TypeError

definition js_get :: "'a list \<Rightarrow> int \<Rightarrow> 'a option" where
  "js_get xs i = (if 0 \<le> i \<and> i < int (length xs) then Some (xs ! nat i) else None)"

text \<open>The remainder operator \<open>%\<close> on integers: the quotient is truncated towards zero, so
  the result has the sign of the dividend. The generators call it with a positive divisor
  only (inside loops that run when \<open>N > 0\<close>).\<close>

definition js_rem :: "int \<Rightarrow> int \<Rightarrow> int" where
  "js_rem a b = sgn a * (\<bar>a\<bar> mod \<bar>b\<bar>)"

section \<open>rng.js: the xorshift32 generator\<close>

text \<open>The class has the single field \<open>state\<close>, an unsigned 32-bit integer (every
  assignment to it ends in \<open>>>> 0\<close>). An object of the class is modelled by that word; a
  method returns its result together with the new state.\<close>

type_synonym RNG = "32 word"

text \<open>\<open>constructor(seed)\<close>: \<open>this.state = (seed >>> 0) || 1\<close>. \<open>>>> 0\<close> reduces the integer
  modulo \<open>2^32\<close>; \<open>|| 1\<close> replaces a zero by one.\<close>

definition RNG_new :: "int \<Rightarrow> RNG" where
  "RNG_new seed = (if (word_of_int seed :: 32 word) = 0 then 1 else word_of_int seed)"

definition nextU32 :: "RNG \<Rightarrow> 32 word \<times> RNG" where
  "nextU32 s =
     (let x = s;
          x = x XOR push_bit 13 x;
          x = x XOR drop_bit 17 x;
          x = x XOR push_bit 5 x
      in (x, x))"

text \<open>\<open>random()\<close>: \<open>this.nextU32() / 0xFFFFFFFF\<close>.\<close>

definition random :: "RNG \<Rightarrow> real \<times> RNG" where
  "random s = (let (u, s') = nextU32 s in (real (unat u) / 4294967295, s'))"

text \<open>\<open>int(maxExclusive)\<close>: \<open>Math.floor(this.random() * maxExclusive)\<close>.\<close>

definition RNG_int :: "int \<Rightarrow> RNG \<Rightarrow> int \<times> RNG" where
  "RNG_int maxExclusive s =
     (let (r, s') = random s in (\<lfloor>r * real_of_int maxExclusive\<rfloor>, s'))"

text \<open>\<open>runFixation\<close> gives trial number \<open>tr\<close> its own generator
  \<open>new RNG(baseSeed + 1000 + tr)\<close>.\<close>

definition trialRng :: "int \<Rightarrow> nat \<Rightarrow> RNG" where
  "trialRng baseSeed tr = RNG_new (baseSeed + 1000 + int tr)"

text \<open>The state of the generator after \<open>k\<close> further draws.\<close>

fun advance :: "nat \<Rightarrow> RNG \<Rightarrow> RNG" where
  "advance 0 s = s"
| "advance (Suc k) s = advance k (snd (nextU32 s))"

text \<open>The inverse of the last xorshift step \<open>x ^= x << 5\<close>, used to show that
  \<open>nextU32\<close> is injective.\<close>

definition undo_left5 :: "32 word \<Rightarrow> 32 word" where
  "undo_left5 z = z XOR push_bit 5 z XOR push_bit 10 z XOR push_bit 15 z
     XOR push_bit 20 z XOR push_bit 25 z XOR push_bit 30 z"

section \<open>graph.js: the graph and its generators\<close>

text \<open>
  \<open>class Graph\<close>: the node count \<open>N\<close> and the adjacency lists \<open>adj\<close>. The
  positions \<open>pos\<close> are used by the display only and are left out; the random draws
  that initialise them are kept, since they advance the generator.
\<close>

record Graph =
  gN :: nat
  adj :: "nat list list"

definition Graph_new :: "nat \<Rightarrow> Graph" where
  "Graph_new n = \<lparr>gN = n, adj = replicate n []\<rparr>"

text \<open>
  \<open>addEdge(u, v)\<close>. \<open>this.adj[u]\<close> is \<open>undefined\<close> for an index outside \<open>[0, N)\<close>, and
  \<open>.includes\<close> on it throws. When only \<open>v\<close> is outside, the code has pushed \<open>v\<close>
  onto \<open>adj[u]\<close> before it throws on \<open>this.adj[v]\<close>; the exception propagates out of
  the generator function and the graph under construction is dropped, so the model returns
  the error alone.
\<close>

definition push_nbr :: "Graph \<Rightarrow> nat \<Rightarrow> nat \<Rightarrow> Graph" where
  "push_nbr g u v =
     (if v \<in> set (adj g ! u) then g else g\<lparr>adj := (adj g)[u := adj g ! u @ [v]]\<rparr>)"

definition addEdge :: "Graph \<Rightarrow> int \<Rightarrow> int \<Rightarrow> error + Graph" where
  "addEdge g u v =
     (if u = v then Inr g
      else if \<not> (0 \<le> u \<and> u < int (length (adj g))) then Inl TypeError
      else if \<not> (0 \<le> v \<and> v < int (length (adj g))) then Inl TypeError
      else Inr (push_nbr (push_nbr g (nat u) (nat v)) (nat v) (nat u)))"

definition degree :: "Graph \<Rightarrow> int \<Rightarrow> error + nat" where
  "degree g i = (case js_get (adj g) i of None \<Rightarrow> Inl TypeError | Some ns \<Rightarrow> Inr (length ns))"

text \<open>A \<open>for\<close> loop whose body may throw: the first exception ends the loop.\<close>

fun loopE :: "('a \<Rightarrow> 's \<Rightarrow> error + 's) \<Rightarrow> 'a list \<Rightarrow> 's \<Rightarrow> error + 's" where
  "loopE body [] s = Inr s"
| "loopE body (x # xs) s = (case body x s of Inl e \<Rightarrow> Inl e | Inr s' \<Rightarrow> loopE body xs s')"

definition edgeCount :: "Graph \<Rightarrow> error + real" where
  "edgeCount g =
     (case loopE (\<lambda>i acc. case js_get (adj g) (int i) of
                     None \<Rightarrow> Inl TypeError | Some ns \<Rightarrow> Inr (acc + length ns))
                 [0..<gN g] 0 of
        Inl e \<Rightarrow> Inl e
      | Inr acc \<Rightarrow> Inr (real acc / 2))"

subsection \<open>Ring\<close>

text \<open>The body of the inner loop of \<open>makeRing\<close>, for node \<open>i\<close> and distance \<open>d\<close>.\<close>

definition ringStep :: "nat \<Rightarrow> nat \<Rightarrow> nat \<Rightarrow> Graph \<Rightarrow> error + Graph" where
  "ringStep n i d g =
     (let j = js_rem (int i + int d) (int n);
          h = js_rem (int i - int d + int n) (int n)
      in case addEdge g (int i) j of Inl e \<Rightarrow> Inl e | Inr g1 \<Rightarrow> addEdge g1 (int i) h)"

text \<open>\<open>makeRing(N, k)\<close>; the parameter \<open>rng\<close> is not used by the code. \<open>d\<close> runs from 1
  to \<open>k / 2\<close>, which is an integer once the parity test has passed.\<close>

definition makeRing :: "nat \<Rightarrow> nat \<Rightarrow> error + Graph" where
  "makeRing n k =
     (if k mod 2 \<noteq> 0 then Inl InvalidParameter
      else loopE (\<lambda>i. loopE (\<lambda>d. ringStep n i d) [1..<k div 2 + 1]) [0..<n] (Graph_new n))"

subsection \<open>Toroidal lattice\<close>

text \<open>
  \<open>Math.round(Math.sqrt(N))\<close>, the integer nearest to the square root: the least \<open>l\<close>
  with \<open>N \<le> l * l + l\<close> (that is, \<open>sqrt N < l + 1/2\<close>). Lemma
  \<open>round_sqrt_is_Math_round_sqrt\<close> relates it to the rounded real square root.
\<close>

function round_sqrt_from :: "nat \<Rightarrow> nat \<Rightarrow> nat" where
  "round_sqrt_from n l = (if l * l + l < n then round_sqrt_from n (Suc l) else l)"
  by pat_completeness auto
termination
proof (relation "measure (\<lambda>(n, l). n - l)")
  show "wf (measure (\<lambda>(n, l). n - l))" by simp
next
  fix n l :: nat
  assume "l * l + l < n"
  then have "l < n" by simp
  then show "((n, Suc l), (n, l)) \<in> measure (\<lambda>(n, l). n - l)" by simp
qed

declare round_sqrt_from.simps [simp del]

definition round_sqrt :: "nat \<Rightarrow> nat" where
  "round_sqrt n = round_sqrt_from n 0"

text \<open>\<open>idx(x, y) = ((y + M) % M) * L + ((x + L) % L)\<close>.\<close>

definition idx :: "nat \<Rightarrow> nat \<Rightarrow> int \<Rightarrow> int \<Rightarrow> int" where
  "idx l m x y = js_rem (y + int m) (int m) * int l + js_rem (x + int l) (int l)"

definition latticeStep :: "nat \<Rightarrow> nat \<Rightarrow> nat \<Rightarrow> nat \<Rightarrow> Graph \<Rightarrow> error + Graph" where
  "latticeStep l m y x g =
     (let i = idx l m (int x) (int y) in
      case addEdge g i (idx l m (int x + 1) (int y)) of Inl e \<Rightarrow> Inl e | Inr g1 \<Rightarrow>
     (case addEdge g1 i (idx l m (int x - 1) (int y)) of Inl e \<Rightarrow> Inl e | Inr g2 \<Rightarrow>
     (case addEdge g2 i (idx l m (int x) (int y + 1)) of Inl e \<Rightarrow> Inl e | Inr g3 \<Rightarrow>
      addEdge g3 i (idx l m (int x) (int y - 1)))))"

text \<open>\<open>makeLattice(N)\<close>; the parameter \<open>rng\<close> is not used by the code.\<close>

definition makeLattice :: "nat \<Rightarrow> error + Graph" where
  "makeLattice n =
     (let g = Graph_new n; l = round_sqrt n; m = l; nn = l * m
      in if nn \<noteq> n then Inl InvalidParameter
         else loopE (\<lambda>y. loopE (\<lambda>x. latticeStep l m y x) [0..<l]) [0..<m] g)"

subsection \<open>Erdos-Renyi\<close>

text \<open>The two \<open>rng.random()\<close> calls per node that place the nodes on the canvas.\<close>

fun drawPositions :: "nat \<Rightarrow> RNG \<Rightarrow> RNG" where
  "drawPositions 0 s = s"
| "drawPositions (Suc n) s = drawPositions n (snd (random (snd (random s))))"

definition erStep :: "real \<Rightarrow> nat \<Rightarrow> nat \<Rightarrow> Graph \<times> RNG \<Rightarrow> error + Graph \<times> RNG" where
  "erStep p i j gs =
     (let (g, s) = gs; (r, s') = random s
      in if r < p
         then (case addEdge g (int i) (int j) of Inl e \<Rightarrow> Inl e | Inr g' \<Rightarrow> Inr (g', s'))
         else Inr (g, s'))"

definition makeErdosRenyi :: "nat \<Rightarrow> real \<Rightarrow> RNG \<Rightarrow> error + Graph \<times> RNG" where
  "makeErdosRenyi n p rng =
     (case loopE (\<lambda>i. loopE (\<lambda>j. erStep p i j) [i + 1..<n]) [0..<n] (Graph_new n, rng) of
        Inl e \<Rightarrow> Inl e
      | Inr (g, s) \<Rightarrow> Inr (g, drawPositions n s))"

subsection \<open>Barabasi-Albert\<close>

text \<open>\<open>Set.prototype.add\<close> on a \<open>Set\<close>, which iterates in insertion order: the list of
  its elements, without repetition.\<close>

definition set_add :: "'a list \<Rightarrow> 'a \<Rightarrow> 'a list" where
  "set_add xs x = (if x \<in> set xs then xs else xs @ [x])"

text \<open>
  The sampling pool is a JavaScript array of node indices; \<open>pool[r]\<close> is \<open>undefined\<close>
  (\<open>None\<close>) when \<open>r\<close> is outside the array. The loop
  \<open>while (targets.size < m) { t = pool[rng.int(pool.length)]; targets.add(t) }\<close> has no bound
  on its number of iterations: the result is \<open>None\<close> if it runs forever.
\<close>

definition pool_get :: "nat option list \<Rightarrow> int \<Rightarrow> nat option" where
  "pool_get pool r = (case js_get pool r of None \<Rightarrow> None | Some t \<Rightarrow> t)"

partial_function (option) pickTargets ::
  "nat option list \<Rightarrow> nat \<Rightarrow> nat option list \<Rightarrow> RNG \<Rightarrow> (nat option list \<times> RNG) option" where
  "pickTargets pool m targets s =
     (if length targets < m
      then pickTargets pool m
             (set_add targets (pool_get pool (fst (RNG_int (int (length pool)) s))))
             (snd (RNG_int (int (length pool)) s))
      else Some (targets, s))"

text \<open>\<open>g.addEdge(v, u)\<close> for a target \<open>u\<close>; with \<open>u\<close> undefined, \<open>this.adj[undefined]\<close> is
  \<open>undefined\<close> and \<open>.includes\<close> on it throws.\<close>

definition addTarget :: "nat \<Rightarrow> nat option \<Rightarrow> Graph \<Rightarrow> error + Graph" where
  "addTarget v u g = (case u of None \<Rightarrow> Inl TypeError | Some t \<Rightarrow> addEdge g (int v) (int t))"

text \<open>The body of the loop over the new nodes \<open>v = m0, ..., N - 1\<close>.\<close>

definition attachNode ::
  "nat \<Rightarrow> nat \<Rightarrow> Graph \<times> nat option list \<times> RNG
     \<Rightarrow> (error + Graph \<times> nat option list \<times> RNG) option" where
  "attachNode m v st =
     (let (g, pool, s) = st in
      case pickTargets pool m [] s of
        None \<Rightarrow> None
      | Some (targets, s') \<Rightarrow>
          (case loopE (addTarget v) targets g of
             Inl e \<Rightarrow> Some (Inl e)
           | Inr g' \<Rightarrow>
               (case degree g' (int v) of
                  Inl e \<Rightarrow> Some (Inl e)
                | Inr dv \<Rightarrow> Some (Inr (g', pool @ replicate dv (Some v) @ targets, s')))))"

fun attachLoop ::
  "nat \<Rightarrow> nat list \<Rightarrow> Graph \<times> nat option list \<times> RNG
     \<Rightarrow> (error + Graph \<times> nat option list \<times> RNG) option" where
  "attachLoop m [] st = Some (Inr st)"
| "attachLoop m (v # vs) st =
     (case attachNode m v st of
        None \<Rightarrow> None
      | Some (Inl e) \<Rightarrow> Some (Inl e)
      | Some (Inr st') \<Rightarrow> attachLoop m vs st')"

text \<open>The seed clique on the nodes \<open>0, ..., m0 - 1\<close> and the initial pool, in which node
  \<open>i\<close> appears \<open>degree(i)\<close> times.\<close>

definition makeClique :: "nat \<Rightarrow> nat \<Rightarrow> error + Graph" where
  "makeClique n m0 =
     loopE (\<lambda>i. loopE (\<lambda>j g. addEdge g (int i) (int j)) [i + 1..<m0]) [0..<m0] (Graph_new n)"

definition initPool :: "Graph \<Rightarrow> nat \<Rightarrow> error + nat option list" where
  "initPool g m0 =
     loopE (\<lambda>i pool. case degree g (int i) of
                      Inl e \<Rightarrow> Inl e
                    | Inr d \<Rightarrow> Inr (pool @ replicate d (Some i)))
       [0..<m0] []"

definition makeBA :: "nat \<Rightarrow> nat \<Rightarrow> nat \<Rightarrow> RNG \<Rightarrow> (error + Graph \<times> RNG) option" where
  "makeBA n m0 m rng =
     (if m0 < 2 then Some (Inl InvalidParameter)
      else if m < 1 \<or> m \<ge> m0 then Some (Inl InvalidParameter)
      else case makeClique n m0 of
             Inl e \<Rightarrow> Some (Inl e)
           | Inr g \<Rightarrow>
               (case initPool g m0 of
                  Inl e \<Rightarrow> Some (Inl e)
                | Inr pool \<Rightarrow>
                    (case attachLoop m [m0..<n] (g, pool, rng) of
                       None \<Rightarrow> None
                     | Some (Inl e) \<Rightarrow> Some (Inl e)
                     | Some (Inr (g', pool', s')) \<Rightarrow> Some (Inr (g', drawPositions n s')))))"

section \<open>evo.js: payoffs and update rules\<close>

text \<open>
  The game matrix \<open>{R, S, T, P}\<close>. The strategy assignment is a \<open>Uint8Array\<close> of 0/1
  (\<open>strat\<close> in the session, \<open>s\<close> in \<open>runFixation\<close>): a list of bytes. Reading it outside
  its bounds, or at the key \<open>undefined\<close>, yields \<open>undefined\<close>; writing \<open>undefined\<close> or
  \<open>NaN\<close> into it stores 0, an integer is stored modulo 256; a write outside the bounds is
  ignored, and a write at the key \<open>undefined\<close> sets an ordinary property and changes no
  element.
\<close>

record Matrix =
  M_R :: real
  M_S :: real
  M_T :: real
  M_P :: real

type_synonym u8 = "8 word"

definition donationToMatrix :: "real \<Rightarrow> real \<Rightarrow> Matrix" where
  "donationToMatrix b c = \<lparr>M_R = b - c, M_S = - c, M_T = b, M_P = 0\<rparr>"

text \<open>The value of \<open>strat[key]\<close> as a JavaScript number; \<open>None\<close> stands for \<open>undefined\<close>
  (and, after arithmetic, for \<open>NaN\<close>).\<close>

definition strat_get :: "u8 list \<Rightarrow> int option \<Rightarrow> int option" where
  "strat_get strat key =
     (case key of None \<Rightarrow> None | Some i \<Rightarrow> map_option uint (js_get strat i))"

definition to_u8 :: "int option \<Rightarrow> u8" where
  "to_u8 v = (case v of None \<Rightarrow> 0 | Some n \<Rightarrow> word_of_int n)"

definition strat_set :: "u8 list \<Rightarrow> int option \<Rightarrow> int option \<Rightarrow> u8 list" where
  "strat_set strat key v =
     (case key of
        None \<Rightarrow> strat
      | Some i \<Rightarrow> if 0 \<le> i \<and> i < int (length strat) then strat[nat i := to_u8 v] else strat)"

text \<open>The summand of \<open>computePayoffs\<close> for the strategies \<open>si\<close> and \<open>sj\<close>, with the
  comparisons \<open>=== 1\<close> and \<open>=== 0\<close> in the order of the code; an \<open>undefined\<close> strategy
  falls through to the last branch.\<close>

definition payoffTerm :: "Matrix \<Rightarrow> u8 option \<Rightarrow> u8 option \<Rightarrow> real" where
  "payoffTerm M si sj =
     (if si = Some 1 \<and> sj = Some 1 then M_R M
      else if si = Some 1 \<and> sj = Some 0 then M_S M
      else if si = Some 0 \<and> sj = Some 1 then M_T M
      else M_P M)"

text \<open>\<open>computePayoffs(g, strat, M)\<close>: \<open>pay\<close> starts as \<open>N\<close> zeros; \<open>nei.length\<close> throws
  if \<open>g.adj[i]\<close> is \<open>undefined\<close>.\<close>

definition computePayoffs :: "Graph \<Rightarrow> u8 list \<Rightarrow> Matrix \<Rightarrow> error + real list" where
  "computePayoffs g strat M =
     loopE (\<lambda>i pay.
              let si = js_get strat (int i) in
              case js_get (adj g) (int i) of
                None \<Rightarrow> Inl TypeError
              | Some nei \<Rightarrow>
                  Inr (pay[i := fold (\<lambda>j acc. acc + payoffTerm M si (js_get strat (int j))) nei 0]))
       [0..<gN g] (replicate (gN g) 0)"

text \<open>
  Numbers that may be \<open>NaN\<close> (\<open>None\<close>): \<open>pay[j]\<close> is \<open>undefined\<close> outside the array and
  turns into \<open>NaN\<close> in arithmetic; \<open>Math.max(0, NaN)\<close> is \<open>NaN\<close>; every comparison with
  \<open>NaN\<close> is false.
\<close>

definition num_add :: "real option \<Rightarrow> real option \<Rightarrow> real option" where
  "num_add a b = (case a of None \<Rightarrow> None | Some x \<Rightarrow> map_option (\<lambda>y. x + y) b)"

definition num_sub :: "real option \<Rightarrow> real option \<Rightarrow> real option" where
  "num_sub a b = (case a of None \<Rightarrow> None | Some x \<Rightarrow> map_option (\<lambda>y. x - y) b)"

definition num_le0 :: "real option \<Rightarrow> bool" where
  "num_le0 a = (case a of None \<Rightarrow> False | Some x \<Rightarrow> x \<le> 0)"

text \<open>\<open>Math.max(0, (1 - w) + w * pay[j])\<close>.\<close>

definition fitness :: "real \<Rightarrow> real option \<Rightarrow> real option" where
  "fitness w p = map_option (\<lambda>x. max 0 ((1 - w) + w * x)) p"

text \<open>The second loop of \<open>pickWeightedIndex\<close>, at index \<open>i\<close> with the weights from \<open>i\<close> on
  still to visit; \<open>final\<close> is \<open>weights.length - 1\<close>.\<close>

fun pickScan :: "real option list \<Rightarrow> int \<Rightarrow> real option \<Rightarrow> int \<Rightarrow> int" where
  "pickScan [] i r final = final"
| "pickScan (wt # ws) i r final =
     (let r' = num_sub r wt in if num_le0 r' then i else pickScan ws (i + 1) r' final)"

definition pickWeightedIndex :: "real option list \<Rightarrow> RNG \<Rightarrow> int \<times> RNG" where
  "pickWeightedIndex weights s =
     (let total = fold (\<lambda>wt t. num_add t wt) weights (Some 0) in
      if num_le0 total then RNG_int (int (length weights)) s
      else let (x, s') = random s;
               r = map_option (\<lambda>t. x * t) total
           in (pickScan weights 0 r (int (length weights) - 1), s'))"

text \<open>\<open>if (mu > 0 && rng.random() < mu) childStrat = 1 - childStrat\<close>: the draw is made
  only when \<open>mu > 0\<close>.\<close>

definition mutate :: "real \<Rightarrow> int option \<Rightarrow> RNG \<Rightarrow> int option \<times> RNG" where
  "mutate mu c s =
     (if mu > 0
      then let (x, s') = random s in (if x < mu then map_option (\<lambda>n. 1 - n) c else c, s')
      else (c, s))"

text \<open>
  The update rules return the value the function returns (1, or the exception thrown),
  the strategy array after the call and the state of the generator after the call. Every
  exception is thrown before the array is written.
\<close>

type_synonym step_result = "(error + nat) \<times> u8 list \<times> RNG"

definition stepDB ::
  "Graph \<Rightarrow> u8 list \<Rightarrow> Matrix \<Rightarrow> real \<Rightarrow> real \<Rightarrow> RNG \<Rightarrow> step_result" where
  "stepDB g strat M w mu rng =
     (case computePayoffs g strat M of
        Inl e \<Rightarrow> (Inl e, strat, rng)
      | Inr pay \<Rightarrow>
         (let (dead, s1) = RNG_int (int (gN g)) rng in
          (case js_get (adj g) dead of
             None \<Rightarrow> (Inl TypeError, strat, s1)
           | Some neigh \<Rightarrow>
               if length neigh = 0 then (Inr 1, strat, s1)
               else
                 let fit = map (\<lambda>j. fitness w (js_get pay (int j))) neigh;
                     (winnerIdx, s2) = pickWeightedIndex fit s1;
                     parent = js_get neigh winnerIdx;
                     childStrat = strat_get strat (map_option int parent);
                     (childStrat', s3) = mutate mu childStrat s2
                 in (Inr 1, strat_set strat (Some dead) childStrat', s3))))"

definition stepBD ::
  "Graph \<Rightarrow> u8 list \<Rightarrow> Matrix \<Rightarrow> real \<Rightarrow> real \<Rightarrow> RNG \<Rightarrow> step_result" where
  "stepBD g strat M w mu rng =
     (case computePayoffs g strat M of
        Inl e \<Rightarrow> (Inl e, strat, rng)
      | Inr pay \<Rightarrow>
         (let fitAll = map (\<lambda>i. fitness w (js_get pay (int i))) [0..<gN g];
              (parent, s1) = pickWeightedIndex fitAll rng
          in (case js_get (adj g) parent of
                None \<Rightarrow> (Inl TypeError, strat, s1)
              | Some neigh \<Rightarrow>
                  if length neigh = 0 then (Inr 1, strat, s1)
                  else
                    let (r, s2) = RNG_int (int (length neigh)) s1;
                        dead = js_get neigh r;
                        childStrat = strat_get strat (Some parent);
                        (childStrat', s3) = mutate mu childStrat s2
                    in (Inr 1, strat_set strat (map_option int dead) childStrat', s3))))"

text \<open>\<open>1 / (1 + Math.exp(-beta * (pj - pi)))\<close>; \<open>NaN\<close> when \<open>pay[j]\<close> or \<open>pay[i]\<close> is
  \<open>undefined\<close>.\<close>

definition fermi :: "real \<Rightarrow> real option \<Rightarrow> real option \<Rightarrow> real option" where
  "fermi beta p_i p_j =
     (case p_i of None \<Rightarrow> None
      | Some a \<Rightarrow> map_option (\<lambda>b. 1 / (1 + exp (- beta * (b - a)))) p_j)"

definition stepImitationFermi ::
  "Graph \<Rightarrow> u8 list \<Rightarrow> Matrix \<Rightarrow> real \<Rightarrow> real \<Rightarrow> RNG \<Rightarrow> step_result" where
  "stepImitationFermi g strat M beta mu rng =
     (case computePayoffs g strat M of
        Inl e \<Rightarrow> (Inl e, strat, rng)
      | Inr pay \<Rightarrow>
         (let (i, s1) = RNG_int (int (gN g)) rng in
          (case js_get (adj g) i of
             None \<Rightarrow> (Inl TypeError, strat, s1)
           | Some neigh \<Rightarrow>
               if length neigh = 0 then (Inr 1, strat, s1)
               else
                 let (r, s2) = RNG_int (int (length neigh)) s1;
                     j = js_get neigh r;
                     pAdopt = fermi beta (js_get pay i)
                                (case j of None \<Rightarrow> None | Some j' \<Rightarrow> js_get pay (int j'));
                     (x, s3) = random s2
                 in if (case pAdopt of None \<Rightarrow> False | Some q \<Rightarrow> x < q)
                    then let s = strat_get strat (map_option int j);
                             (s', s4) = mutate mu s s3
                         in (Inr 1, strat_set strat (Some i) s', s4)
                    else (Inr 1, strat, s3))))"

text \<open>\<open>isFixated(strat)\<close>.\<close>

definition isFixated :: "u8 list \<Rightarrow> bool" where
  "isFixated strat = list_all (\<lambda>x. Some x = js_get strat 0) (drop 1 strat)"

text \<open>The strategy array after a step.\<close>

definition strat_after :: "step_result \<Rightarrow> u8 list" where
  "strat_after r = fst (snd r)"

text \<open>
  The payoff model in the words of the specification: the matrix entry selected by the
  strategy pair, \<open>(C,C) \<rightarrow> R\<close>, \<open>(C,D) \<rightarrow> S\<close>, \<open>(D,C) \<rightarrow> T\<close>, \<open>(D,D) \<rightarrow> P\<close>, with
  \<open>C = 1\<close> and \<open>D = 0\<close>, for a strategy assignment of binary values.
\<close>

definition spec_matrix_entry :: "Matrix \<Rightarrow> u8 \<Rightarrow> u8 \<Rightarrow> real" where
  "spec_matrix_entry M si sj =
     (if si = 1 then (if sj = 1 then M_R M else M_S M)
      else (if sj = 1 then M_T M else M_P M))"

definition binary_strategies :: "u8 list \<Rightarrow> bool" where
  "binary_strategies strat \<longleftrightarrow> list_all (\<lambda>s. s = 0 \<or> s = 1) strat"



section \<open>Well-formed graphs\<close>

text \<open>The invariant of the data model: one adjacency list per node, every entry a node,
  no node its own neighbour, no neighbour listed twice, and \<open>j\<close> in \<open>adj[i]\<close> whenever
  \<open>i\<close> is in \<open>adj[j]\<close>.\<close>

definition graph_ok :: "Graph \<Rightarrow> bool" where
  "graph_ok g \<longleftrightarrow>
     length (adj g) = gN g \<and>
     (\<forall>i<gN g. distinct (adj g ! i) \<and> i \<notin> set (adj g ! i) \<and>
        (\<forall>j\<in>set (adj g ! i). j < gN g \<and> i \<in> set (adj g ! j)))"

definition nbrs :: "Graph \<Rightarrow> nat \<Rightarrow> nat set" where
  "nbrs g i = set (adj g ! i)"

text \<open>The three properties of the adjacency, each as the data model words it.\<close>

definition symmetric_adj :: "Graph \<Rightarrow> bool" where
  "symmetric_adj g \<longleftrightarrow>
     (\<forall>i<gN g. \<forall>j<gN g. j \<in> set (adj g ! i) \<longleftrightarrow> i \<in> set (adj g ! j))"

definition no_self_loops :: "Graph \<Rightarrow> bool" where
  "no_self_loops g \<longleftrightarrow> (\<forall>i<gN g. i \<notin> set (adj g ! i))"

definition no_duplicates :: "Graph \<Rightarrow> bool" where
  "no_duplicates g \<longleftrightarrow> (\<forall>i<gN g. distinct (adj g ! i))"

text \<open>\<open>adds n f A\<close>: on a well-formed graph with \<open>n\<close> nodes the step \<open>f\<close> does not throw,
  keeps the graph well-formed and adds exactly the pairs in \<open>A\<close> to the adjacency.\<close>

definition adds :: "nat \<Rightarrow> (Graph \<Rightarrow> error + Graph) \<Rightarrow> (nat \<times> nat) set \<Rightarrow> bool" where
  "adds n f A \<longleftrightarrow>
     (\<forall>g. graph_ok g \<and> gN g = n \<longrightarrow>
        (\<exists>g'. f g = Inr g' \<and> graph_ok g' \<and> gN g' = n \<and>
           (\<forall>i<n. nbrs g' i = nbrs g i \<union> {j. (i, j) \<in> A})))"

text \<open>The undirected edge between two nodes, as the pairs it puts into the adjacency;
  empty for a self-loop.\<close>

definition edge :: "nat \<Rightarrow> nat \<Rightarrow> (nat \<times> nat) set" where
  "edge u v = (if u = v then {} else {(u, v), (v, u)})"

text \<open>The neighbours the ring gives node \<open>i\<close>: the \<open>k / 2\<close> nodes on either side.\<close>

definition ringNbrs :: "nat \<Rightarrow> nat \<Rightarrow> nat \<Rightarrow> nat set" where
  "ringNbrs n k i =
     (\<lambda>d. (i + d) mod n) ` {1..k div 2} \<union> (\<lambda>d. (i + n - d) mod n) ` {1..k div 2}"

text \<open>The four von Neumann neighbours of node \<open>i\<close> on the \<open>l\<close> by \<open>l\<close> torus, where
  \<open>i = y * l + x\<close>.\<close>

definition latticeNbrs :: "nat \<Rightarrow> nat \<Rightarrow> nat set" where
  "latticeNbrs l i =
     (let x = i mod l; y = i div l
      in {y * l + (x + 1) mod l, y * l + (x + l - 1) mod l,
          ((y + 1) mod l) * l + x, ((y + l - 1) mod l) * l + x})"

section \<open>Properties of the generator\<close>

text \<open>Each of the three xorshift steps can be undone, so \<open>nextU32\<close> is injective.\<close>

lemma xorshift_left13_inverse:
  "(y XOR push_bit 13 y) XOR push_bit 13 (y XOR push_bit 13 y)
     XOR push_bit 26 (y XOR push_bit 13 y) = (y :: 32 word)"
  by (rule bit_word_eqI) (auto simp: bit_simps)

lemma xorshift_right17_inverse:
  "(y XOR drop_bit 17 y) XOR drop_bit 17 (y XOR drop_bit 17 y) = (y :: 32 word)"
  by (rule bit_word_eqI) (auto simp: bit_simps)

lemma xorshift_left5_inverse: "undo_left5 (y XOR push_bit 5 y) = (y :: 32 word)"
  unfolding undo_left5_def by (rule bit_word_eqI) (auto simp: bit_simps)

lemma nextU32_inj:
  assumes "fst (nextU32 a) = fst (nextU32 b)"
  shows "a = b"
proof -
  let ?f1 = "\<lambda>y :: 32 word. y XOR push_bit 13 y"
  let ?f2 = "\<lambda>y :: 32 word. y XOR drop_bit 17 y"
  let ?f3 = "\<lambda>y :: 32 word. y XOR push_bit 5 y"
  from assms have "?f3 (?f2 (?f1 a)) = ?f3 (?f2 (?f1 b))"
    by (simp add: nextU32_def Let_def)
  then have "undo_left5 (?f3 (?f2 (?f1 a))) = undo_left5 (?f3 (?f2 (?f1 b)))"
    by simp
  then have "?f2 (?f1 a) = ?f2 (?f1 b)"
    by (simp only: xorshift_left5_inverse)
  then have "?f2 (?f1 a) XOR drop_bit 17 (?f2 (?f1 a)) = ?f2 (?f1 b) XOR drop_bit 17 (?f2 (?f1 b))"
    by simp
  then have "?f1 a = ?f1 b"
    by (simp only: xorshift_right17_inverse)
  then have "?f1 a XOR push_bit 13 (?f1 a) XOR push_bit 26 (?f1 a)
      = ?f1 b XOR push_bit 13 (?f1 b) XOR push_bit 26 (?f1 b)"
    by simp
  then show ?thesis
    by (simp only: xorshift_left13_inverse)
qed

lemma nextU32_state: "snd (nextU32 s) = fst (nextU32 s)"
  by (simp add: nextU32_def Let_def)

lemma advance_inj: "advance n a = advance n b \<Longrightarrow> a = b"
proof (induction n arbitrary: a b)
  case 0
  then show ?case by simp
next
  case (Suc n)
  then have "snd (nextU32 a) = snd (nextU32 b)" by simp
  then show ?case using nextU32_inj by (simp add: nextU32_state)
qed

lemma RNG_new_eq_iff:
  "RNG_new a = RNG_new b \<longleftrightarrow>
     a mod 2 ^ 32 = b mod 2 ^ 32 \<or> (a mod 2 ^ 32 \<in> {0, 1} \<and> b mod 2 ^ 32 \<in> {0, 1})"
proof -
  have u: "uint (word_of_int x :: 32 word) = x mod 2 ^ 32" for x
    by (simp add: uint_word_of_int take_bit_eq_mod)
  have e: "(word_of_int x :: 32 word) = word_of_int y \<longleftrightarrow> x mod 2 ^ 32 = y mod 2 ^ 32" for x y
    using u [of x] u [of y] by (metis word_uint_eq_iff)
  have z: "(word_of_int x :: 32 word) = 0 \<longleftrightarrow> x mod 2 ^ 32 = 0" for x
    using e [of x 0] by simp
  have o: "(word_of_int x :: 32 word) = 1 \<longleftrightarrow> x mod 2 ^ 32 = 1" for x
    using e [of x 1] by simp
  show ?thesis
    unfolding RNG_new_def by (auto simp: e z o)
qed

lemma nextU32_1584200935: "nextU32 1584200935 = (4294967295, 4294967295)"
  by (simp add: nextU32_def Let_def)

text \<open>
  C1. The claim is that \<open>random()\<close> is always strictly below 1 and \<open>int(b)\<close> always
  below \<open>b\<close>. The generator divides by \<open>0xFFFFFFFF\<close>, the largest value \<open>nextU32\<close> can
  return, so the draw \<open>0xFFFFFFFF\<close> gives exactly 1: seeded with 1584200935, the first
  \<open>random()\<close> is 1 and the first \<open>int(10)\<close> is 10.
\<close>

theorem RNG_random_hits_one:
  "fst (random (RNG_new 1584200935)) = 1 \<and> fst (RNG_int 10 (RNG_new 1584200935)) = 10"
  by (simp add: RNG_int_def random_def RNG_new_def nextU32_1584200935)

text \<open>
  C5, as claimed: any two distinct trial indices get different streams. This fails: with
  base seed \<open>-1000\<close>, trial 0 is seeded with 0 and trial 1 with 1, and the constructor
  turns the seed 0 into the state 1; the two generators are the same.
\<close>

theorem trialRng_collision: "trialRng (- 1000) 0 = trialRng (- 1000) 1"
  by (simp add: trialRng_def RNG_new_def)

text \<open>
  C5, amended: for a base seed and two trial indices whose seed arithmetic is exact in
  JavaScript numbers (\<open>|baseSeed| + 1000 + t < 2^53\<close>), the two generators
  \<open>new RNG(baseSeed + 1000 + t)\<close> start in different states, and their outputs differ at
  every position of the stream, exactly when the two derived seeds are not congruent
  modulo \<open>2^32\<close> and are not both congruent to 0 or 1 modulo \<open>2^32\<close>; in the remaining
  cases the two generators are the same.
\<close>

theorem trialRng_distinct:
  assumes "\<bar>baseSeed\<bar> + 1000 + int t1 < 2 ^ 53" and "\<bar>baseSeed\<bar> + 1000 + int t2 < 2 ^ 53"
  shows "(trialRng baseSeed t1 \<noteq> trialRng baseSeed t2 \<and>
          (\<forall>n. fst (nextU32 (advance n (trialRng baseSeed t1)))
                 \<noteq> fst (nextU32 (advance n (trialRng baseSeed t2)))))
     \<longleftrightarrow> \<not> ((baseSeed + 1000 + int t1) mod 2 ^ 32 = (baseSeed + 1000 + int t2) mod 2 ^ 32 \<or>
            ((baseSeed + 1000 + int t1) mod 2 ^ 32 \<in> {0, 1} \<and>
             (baseSeed + 1000 + int t2) mod 2 ^ 32 \<in> {0, 1}))"
proof -
  have "fst (nextU32 (advance n a)) \<noteq> fst (nextU32 (advance n b))" if "a \<noteq> b" for a b n
    using that nextU32_inj advance_inj by blast
  then have "(trialRng baseSeed t1 \<noteq> trialRng baseSeed t2 \<and>
          (\<forall>n. fst (nextU32 (advance n (trialRng baseSeed t1)))
                 \<noteq> fst (nextU32 (advance n (trialRng baseSeed t2)))))
      \<longleftrightarrow> trialRng baseSeed t1 \<noteq> trialRng baseSeed t2"
    by blast
  then show ?thesis
    unfolding trialRng_def RNG_new_eq_iff .
qed

theorem trialRng_distinct_witness:
  "\<bar>- 5000\<bar> + 1000 + int 0 < (2::int) ^ 53 \<and> \<bar>- 5000\<bar> + 1000 + int 1 < (2::int) ^ 53
   \<and> trialRng (- 5000) 0 \<noteq> trialRng (- 5000) 1
   \<and> (\<forall>n. fst (nextU32 (advance n (trialRng (- 5000) 0)))
            \<noteq> fst (nextU32 (advance n (trialRng (- 5000) 1))))"
  using trialRng_distinct [of "- 5000" 0 1] by simp

section \<open>Properties of the graph generators\<close>

lemma push_nbr_gN [simp]: "gN (push_nbr g u v) = gN g"
  by (simp add: push_nbr_def)

lemma push_nbr_length [simp]: "length (adj (push_nbr g u v)) = length (adj g)"
  by (simp add: push_nbr_def)

lemma push_nbr_set:
  "u < length (adj g) \<Longrightarrow> i < length (adj g) \<Longrightarrow>
   set (adj (push_nbr g u v) ! i) = set (adj g ! i) \<union> (if i = u then {v} else {})"
  by (auto simp: push_nbr_def nth_list_update)

lemma push_nbr_distinct:
  "u < length (adj g) \<Longrightarrow> i < length (adj g) \<Longrightarrow> distinct (adj g ! i) \<Longrightarrow>
   distinct (adj (push_nbr g u v) ! i)"
  by (auto simp: push_nbr_def nth_list_update)

lemma addEdge_self [simp]: "addEdge g u u = Inr g"
  by (simp add: addEdge_def)

lemma addEdge_in_range:
  assumes "u < length (adj g)" "v < length (adj g)" "u \<noteq> v"
  shows "addEdge g (int u) (int v) = Inr (push_nbr (push_nbr g u v) v u)"
  using assms by (simp add: addEdge_def)

lemma addEdge_Inr_cases:
  assumes "addEdge g u v = Inr g'"
  shows "g' = g \<or> (\<exists>a b. a < length (adj g) \<and> b < length (adj g) \<and> a \<noteq> b \<and> u = int a \<and> v = int b
            \<and> g' = push_nbr (push_nbr g a b) b a)"
proof (cases "u = v")
  case True
  with assms show ?thesis by simp
next
  case False
  with assms have r: "0 \<le> u" "u < int (length (adj g))" "0 \<le> v" "v < int (length (adj g))"
    and g': "g' = push_nbr (push_nbr g (nat u) (nat v)) (nat v) (nat u)"
    by (auto simp: addEdge_def split: if_splits)
  then have "nat u < length (adj g) \<and> nat v < length (adj g) \<and> nat u \<noteq> nat v \<and> u = int (nat u) \<and> v = int (nat v)"
    using False by auto
  with g' show ?thesis by blast
qed

lemma graph_okD:
  assumes "graph_ok g"
  shows "length (adj g) = gN g"
    and "i < gN g \<Longrightarrow> distinct (adj g ! i)"
    and "i < gN g \<Longrightarrow> i \<notin> set (adj g ! i)"
    and "i < gN g \<Longrightarrow> j \<in> set (adj g ! i) \<Longrightarrow> j < gN g"
    and "i < gN g \<Longrightarrow> j \<in> set (adj g ! i) \<Longrightarrow> i \<in> set (adj g ! j)"
  using assms unfolding graph_ok_def by blast+

lemma push_pair_ok:
  assumes ok: "graph_ok g" and u: "u < gN g" and v: "v < gN g" and ne: "u \<noteq> v"
  shows "graph_ok (push_nbr (push_nbr g u v) v u)"
    and "gN (push_nbr (push_nbr g u v) v u) = gN g"
    and "\<forall>i<gN g. nbrs (push_nbr (push_nbr g u v) v u) i = nbrs g i \<union> {j. (i, j) \<in> edge u v}"
proof -
  let ?g1 = "push_nbr g u v" and ?g2 = "push_nbr (push_nbr g u v) v u"
  note len = graph_okD(1) [OF ok]
  have s1: "set (adj ?g1 ! i) = set (adj g ! i) \<union> (if i = u then {v} else {})" if "i < gN g" for i
    using that u len by (simp add: push_nbr_set)
  have s2: "set (adj ?g2 ! i) = set (adj g ! i) \<union> (if i = u then {v} else {}) \<union> (if i = v then {u} else {})"
    if "i < gN g" for i
    using that v len s1 [OF that] by (simp add: push_nbr_set)
  have d2: "distinct (adj ?g2 ! i)" if "i < gN g" for i
  proof -
    from ok that have "distinct (adj g ! i)" by (rule graph_okD(2))
    then have "distinct (adj ?g1 ! i)" using that u len by (simp add: push_nbr_distinct)
    then show ?thesis using that v len by (simp add: push_nbr_distinct)
  qed
  show "gN ?g2 = gN g" by simp
  show "\<forall>i<gN g. nbrs ?g2 i = nbrs g i \<union> {j. (i, j) \<in> edge u v}"
  proof (intro allI impI)
    fix i assume i: "i < gN g"
    show "nbrs ?g2 i = nbrs g i \<union> {j. (i, j) \<in> edge u v}"
      unfolding nbrs_def s2 [OF i] edge_def using ne by auto
  qed
  show "graph_ok ?g2"
    unfolding graph_ok_def
  proof (intro conjI allI impI)
    show "length (adj ?g2) = gN ?g2" using len by simp
  next
    fix i assume "i < gN ?g2"
    then have i: "i < gN g" by simp
    show "distinct (adj ?g2 ! i)" by (rule d2 [OF i])
    have "i \<notin> set (adj g ! i)" using ok i by (rule graph_okD(3))
    then show "i \<notin> set (adj ?g2 ! i)"
      unfolding s2 [OF i] using ne by auto
    show "\<forall>j\<in>set (adj ?g2 ! i). j < gN ?g2 \<and> i \<in> set (adj ?g2 ! j)"
    proof
      fix j assume j: "j \<in> set (adj ?g2 ! i)"
      then have jc: "j \<in> set (adj g ! i) \<or> (i = u \<and> j = v) \<or> (i = v \<and> j = u)"
        unfolding s2 [OF i] by (auto split: if_splits)
      then have jn: "j < gN g" using graph_okD(4) [OF ok i] u v by blast
      from jc have "i \<in> set (adj g ! j) \<or> (i = u \<and> j = v) \<or> (i = v \<and> j = u)"
        using graph_okD(5) [OF ok i] by blast
      then have "i \<in> set (adj ?g2 ! j)"
        unfolding s2 [OF jn] by auto
      with jn show "j < gN ?g2 \<and> i \<in> set (adj ?g2 ! j)" by simp
    qed
  qed
qed

lemma addEdge_preserves:
  assumes "graph_ok g" "addEdge g u v = Inr g'"
  shows "graph_ok g' \<and> gN g' = gN g"
proof -
  from assms(1) have len: "length (adj g) = gN g" by (simp add: graph_ok_def)
  from addEdge_Inr_cases [OF assms(2)] show ?thesis
  proof
    assume "g' = g" with assms(1) show ?thesis by simp
  next
    assume "\<exists>a b. a < length (adj g) \<and> b < length (adj g) \<and> a \<noteq> b \<and> u = int a \<and> v = int b
            \<and> g' = push_nbr (push_nbr g a b) b a"
    then obtain a b where "a < gN g" "b < gN g" "a \<noteq> b" "g' = push_nbr (push_nbr g a b) b a"
      using len by auto
    with push_pair_ok(1,2) [OF assms(1), of a b] show ?thesis by simp
  qed
qed

lemma adds_addEdge:
  assumes "u < n" "v < n"
  shows "adds n (\<lambda>g. addEdge g (int u) (int v)) (edge u v)"
proof (cases "u = v")
  case True
  then show ?thesis by (simp add: adds_def edge_def)
next
  case False
  show ?thesis
    unfolding adds_def
  proof (intro allI impI)
    fix g assume g: "graph_ok g \<and> gN g = n"
    then have len: "length (adj g) = n" by (simp add: graph_ok_def)
    have e: "addEdge g (int u) (int v) = Inr (push_nbr (push_nbr g u v) v u)"
      using assms len False by (simp add: addEdge_in_range)
    from g assms have "u < gN g" "v < gN g" "graph_ok g" by simp_all
    from push_pair_ok [OF this(3,1,2) False] e g
    show "\<exists>g'. addEdge g (int u) (int v) = Inr g' \<and> graph_ok g' \<and> gN g' = n \<and>
           (\<forall>i<n. nbrs g' i = nbrs g i \<union> {j. (i, j) \<in> edge u v})"
      by simp
  qed
qed

lemma adds_seq:
  assumes "adds n f A" "adds n f' B"
  shows "adds n (\<lambda>g. case f g of Inl e \<Rightarrow> Inl e | Inr g1 \<Rightarrow> f' g1) (A \<union> B)"
  unfolding adds_def
proof (intro allI impI)
  fix g assume g: "graph_ok g \<and> gN g = n"
  with assms(1) obtain g1 where g1: "f g = Inr g1" "graph_ok g1" "gN g1 = n"
    "\<forall>i<n. nbrs g1 i = nbrs g i \<union> {j. (i, j) \<in> A}"
    unfolding adds_def by blast
  with assms(2) obtain g2 where g2: "f' g1 = Inr g2" "graph_ok g2" "gN g2 = n"
    "\<forall>i<n. nbrs g2 i = nbrs g1 i \<union> {j. (i, j) \<in> B}"
    unfolding adds_def by blast
  have "\<forall>i<n. nbrs g2 i = nbrs g i \<union> {j. (i, j) \<in> A \<union> B}"
    using g1(4) g2(4) by auto
  with g1(1) g2(1,2,3)
  show "\<exists>g'. (case f g of Inl e \<Rightarrow> Inl e | Inr g1 \<Rightarrow> f' g1) = Inr g' \<and> graph_ok g' \<and> gN g' = n \<and>
           (\<forall>i<n. nbrs g' i = nbrs g i \<union> {j. (i, j) \<in> A \<union> B})"
    by simp
qed

lemma adds_skip: "adds n Inr {}"
  by (simp add: adds_def)

lemma adds_loopE:
  assumes "\<And>x. x \<in> set xs \<Longrightarrow> adds n (body x) (A x)"
  shows "adds n (loopE body xs) (\<Union>x\<in>set xs. A x)"
  using assms
proof (induction xs)
  case Nil
  show ?case using adds_skip by (simp add: adds_def)
next
  case (Cons x xs)
  have a: "adds n (body x) (A x)" using Cons.prems by simp
  have b: "adds n (loopE body xs) (\<Union>x\<in>set xs. A x)" using Cons by simp
  have "loopE body (x # xs) = (\<lambda>g. case body x g of Inl e \<Rightarrow> Inl e | Inr g1 \<Rightarrow> loopE body xs g1)"
    by (rule ext) simp
  moreover have "(\<Union>x\<in>set (x # xs). A x) = A x \<union> (\<Union>x\<in>set xs. A x)" by simp
  ultimately show ?case using adds_seq [OF a b] by simp
qed

lemma loopE_invariant:
  assumes "\<And>x s s'. x \<in> set xs \<Longrightarrow> P s \<Longrightarrow> body x s = Inr s' \<Longrightarrow> P s'"
    and "P s" and "loopE body xs s = Inr s'"
  shows "P s'"
  using assms
proof (induction xs arbitrary: s)
  case Nil
  then show ?case by simp
next
  case (Cons x xs)
  from Cons.prems(3) obtain s1 where s1: "body x s = Inr s1" "loopE body xs s1 = Inr s'"
    by (auto split: sum.splits)
  have "P s1" using Cons.prems(1) [of x s s1] Cons.prems(2) s1(1) by simp
  moreover have "\<And>x s s'. x \<in> set xs \<Longrightarrow> P s \<Longrightarrow> body x s = Inr s' \<Longrightarrow> P s'"
    using Cons.prems(1) by (meson list.set_intros(2))
  ultimately show ?case using Cons.IH [of s1] s1(2) by blast
qed

lemma Graph_new_ok: "graph_ok (Graph_new n)" "gN (Graph_new n) = n"
  "i < n \<Longrightarrow> nbrs (Graph_new n) i = {}"
  by (simp_all add: graph_ok_def Graph_new_def nbrs_def)


lemma loopE_Inl:
  assumes "loopE body xs s = Inl e"
  shows "\<exists>x\<in>set xs. \<exists>s1. body x s1 = Inl e"
  using assms
proof (induction xs arbitrary: s)
  case Nil
  then show ?case by simp
next
  case (Cons x xs)
  show ?case
  proof (cases "body x s")
    case (Inl e')
    with Cons.prems have "e' = e" by simp
    with Inl show ?thesis by auto
  next
    case (Inr s1)
    with Cons.prems have "loopE body xs s1 = Inl e" by simp
    from Cons.IH [OF this] show ?thesis by auto
  qed
qed

lemma addEdge_error: "addEdge g u v = Inl e \<Longrightarrow> e = TypeError"
  by (auto simp: addEdge_def split: if_splits)

lemma js_rem_nonneg: "0 \<le> a \<Longrightarrow> 0 < b \<Longrightarrow> js_rem a b = a mod b"
  by (cases "a = 0") (simp_all add: js_rem_def)

lemma js_rem_nat: "0 < n \<Longrightarrow> js_rem (int a) (int n) = int (a mod n)"
  by (simp add: js_rem_nonneg zmod_int)

lemma ringStep_error: "ringStep n i d g = Inl e \<Longrightarrow> e = TypeError"
  by (auto simp: ringStep_def Let_def split: sum.splits dest: addEdge_error)

lemma makeRing_InvalidParameter: "makeRing n k = Inl InvalidParameter \<longleftrightarrow> odd k"
proof
  assume a: "makeRing n k = Inl InvalidParameter"
  show "odd k"
  proof (rule ccontr)
    assume "\<not> odd k"
    then have "k mod 2 = 0" by presburger
    with a have "loopE (\<lambda>i. loopE (\<lambda>d. ringStep n i d) [1..<k div 2 + 1]) [0..<n] (Graph_new n)
        = Inl InvalidParameter"
      by (simp add: makeRing_def)
    from loopE_Inl [OF this] obtain i s1 where
      "loopE (\<lambda>d. ringStep n i d) [1..<k div 2 + 1] s1 = Inl InvalidParameter" by blast
    from loopE_Inl [OF this] obtain d s2 where "ringStep n i d s2 = Inl InvalidParameter" by blast
    from ringStep_error [OF this] show False by simp
  qed
next
  assume "odd k"
  then have "k mod 2 \<noteq> 0" by presburger
  then show "makeRing n k = Inl InvalidParameter" by (simp add: makeRing_def)
qed

lemma mod_add_small: "i < n \<Longrightarrow> d < n \<Longrightarrow> (i + d) mod n = (if i + d < n then i + d else i + d - n)"
  for i d n :: nat
  by (simp add: mod_if)

lemma mod_sub_small: "i < n \<Longrightarrow> 0 < d \<Longrightarrow> d < n \<Longrightarrow> (i + n - d) mod n = (if d \<le> i then i - d else i + n - d)"
  for i d n :: nat
  by (auto simp: mod_if le_mod_geq)

lemma adds_ringStep:
  assumes "i < n" "0 < d" "d < n"
  shows "adds n (ringStep n i d) (edge i ((i + d) mod n) \<union> edge i ((i + n - d) mod n))"
proof -
  have n: "0 < n" using assms by simp
  have j: "js_rem (int i + int d) (int n) = int ((i + d) mod n)"
    using js_rem_nat [OF n, of "i + d"] by simp
  have "int i - int d + int n = int (i + n - d)" using assms by simp
  then have h: "js_rem (int i - int d + int n) (int n) = int ((i + n - d) mod n)"
    using js_rem_nat [OF n, of "i + n - d"] by simp
  have "ringStep n i d = (\<lambda>g. case addEdge g (int i) (int ((i + d) mod n)) of Inl e \<Rightarrow> Inl e
      | Inr g1 \<Rightarrow> addEdge g1 (int i) (int ((i + n - d) mod n)))"
    by (rule ext) (simp add: ringStep_def j h)
  moreover have "adds n (\<lambda>g. addEdge g (int i) (int ((i + d) mod n))) (edge i ((i + d) mod n))"
    using assms n by (intro adds_addEdge) simp_all
  moreover have "adds n (\<lambda>g. addEdge g (int i) (int ((i + n - d) mod n))) (edge i ((i + n - d) mod n))"
    using assms n by (intro adds_addEdge) simp_all
  ultimately show ?thesis using adds_seq by simp
qed


lemma card_ringNbrs:
  assumes "even k" "k < n" "i < n"
  shows "card (ringNbrs n k i) = k"
proof -
  let ?h = "k div 2"
  let ?f = "\<lambda>d. (i + d) mod n" and ?b = "\<lambda>d. (i + n - d) mod n"
  have h: "2 * ?h = k" using assms(1) by simp
  have f: "?f d = (if i + d < n then i + d else i + d - n)" if "d \<in> {1..?h}" for d
    using that assms h by (intro mod_add_small) auto
  have b: "?b d = (if d \<le> i then i - d else i + n - d)" if "d \<in> {1..?h}" for d
    using that assms h by (intro mod_sub_small) auto
  have "inj_on ?f {1..?h}"
  proof (rule inj_onI)
    fix x y assume "x \<in> {1..?h}" "y \<in> {1..?h}" "?f x = ?f y"
    then show "x = y" using assms h by (simp add: f split: if_splits)
  qed
  then have cf: "card (?f ` {1..?h}) = ?h" by (simp add: card_image)
  have "inj_on ?b {1..?h}"
  proof (rule inj_onI)
    fix x y assume "x \<in> {1..?h}" "y \<in> {1..?h}" "?b x = ?b y"
    then show "x = y" using assms h by (simp add: b split: if_splits)
  qed
  then have cb: "card (?b ` {1..?h}) = ?h" by (simp add: card_image)
  have "?f ` {1..?h} \<inter> ?b ` {1..?h} = {}"
  proof (rule ccontr)
    assume "?f ` {1..?h} \<inter> ?b ` {1..?h} \<noteq> {}"
    then obtain x y where xy: "x \<in> {1..?h}" "y \<in> {1..?h}" "?f x = ?b y" by blast
    then have "(if i + x < n then i + x else i + x - n) = (if y \<le> i then i - y else i + n - y)"
      by (simp only: f b)
    then show False using xy(1,2) assms h by (auto split: if_splits)
  qed
  then have "card (ringNbrs n k i) = card (?f ` {1..?h}) + card (?b ` {1..?h})"
    unfolding ringNbrs_def by (intro card_Un_disjoint) auto
  with cf cb h show ?thesis by simp
qed

lemma ring_pairs:
  assumes "even k" "k < n" "i < n"
  shows "{j. (i, j) \<in> (\<Union>a\<in>set [0..<n]. \<Union>d\<in>set [1..<k div 2 + 1].
            edge a ((a + d) mod n) \<union> edge a ((a + n - d) mod n))} = ringNbrs n k i"
    (is "?L = ?R")
proof -
  let ?h = "k div 2"
  have h: "2 * ?h = k" using assms(1) by simp
  have f: "(a + d) mod n = (if a + d < n then a + d else a + d - n)"
    if "a < n" "d \<in> {1..?h}" for a d
    using that assms h by (intro mod_add_small) auto
  have b: "(a + n - d) mod n = (if d \<le> a then a - d else a + n - d)"
    if "a < n" "d \<in> {1..?h}" for a d
    using that assms h by (intro mod_sub_small) auto
  show ?thesis
  proof (intro set_eqI iffI)
    fix j assume "j \<in> ?L"
    then obtain a d where "a \<in> set [0..<n]" "d \<in> set [1..<?h + 1]"
      and e: "(i, j) \<in> edge a ((a + d) mod n) \<union> edge a ((a + n - d) mod n)"
      by blast
    then have ad: "a < n" "d \<in> {1..?h}" by auto
    from e have "(i = a \<and> (j = (a + d) mod n \<or> j = (a + n - d) mod n))
        \<or> (j = a \<and> (i = (a + d) mod n \<or> i = (a + n - d) mod n))"
      by (auto simp: edge_def split: if_splits)
    then have "j = (i + d) mod n \<or> j = (i + n - d) mod n"
    proof (elim disjE conjE)
      assume "j = a" "i = (a + d) mod n"
      then have "j = (i + n - d) mod n"
        using ad assms h by (auto simp: f b split: if_splits)
      then show ?thesis ..
    next
      assume "j = a" "i = (a + n - d) mod n"
      then have "j = (i + d) mod n"
        using ad assms h by (auto simp: f b split: if_splits)
      then show ?thesis ..
    qed auto
    with ad(2) show "j \<in> ?R" by (auto simp: ringNbrs_def)
  next
    fix j assume "j \<in> ?R"
    then obtain d where d: "d \<in> {1..?h}" and j: "j = (i + d) mod n \<or> j = (i + n - d) mod n"
      unfolding ringNbrs_def by blast
    have ne: "(i + d) mod n \<noteq> i" "(i + n - d) mod n \<noteq> i"
      using d assms h by (auto simp: f b split: if_splits)
    from j ne have "(i, j) \<in> edge i ((i + d) mod n) \<union> edge i ((i + n - d) mod n)"
      by (auto simp: edge_def)
    moreover have "i \<in> set [0..<n]" "d \<in> set [1..<?h + 1]" using assms(3) d by auto
    ultimately show "j \<in> ?L" by blast
  qed
qed


lemma js_get_nat: "i < length xs \<Longrightarrow> js_get xs (int i) = Some (xs ! i)"
  by (simp add: js_get_def)

lemma degree_ok:
  assumes "graph_ok g" "i < gN g"
  shows "degree g (int i) = Inr (card (nbrs g i))"
proof -
  have "js_get (adj g) (int i) = Some (adj g ! i)"
    using assms graph_okD(1) [OF assms(1)] by (simp add: js_get_nat)
  moreover have "card (set (adj g ! i)) = length (adj g ! i)"
    using graph_okD(2) [OF assms] by (rule distinct_card)
  ultimately show ?thesis by (simp add: degree_def nbrs_def)
qed

lemma edgeCount_loop:
  assumes "\<forall>i\<in>set xs. i < length (adj g)"
  shows "loopE (\<lambda>i acc. case js_get (adj g) (int i) of
                     None \<Rightarrow> Inl TypeError | Some ns \<Rightarrow> Inr (acc + length ns)) xs acc
         = Inr (acc + sum_list (map (\<lambda>i. length (adj g ! i)) xs))"
  using assms by (induction xs arbitrary: acc) (simp_all add: js_get_nat)

lemma sum_list_const: "\<forall>x\<in>set xs. f x = (c::nat) \<Longrightarrow> sum_list (map f xs) = length xs * c"
  by (induction xs) simp_all

lemma edgeCount_regular:
  assumes "graph_ok g" "\<forall>i<gN g. card (nbrs g i) = k"
  shows "edgeCount g = Inr (real (gN g * k) / 2)"
proof -
  have len: "length (adj g) = gN g" using assms(1) by (rule graph_okD(1))
  have "length (adj g ! i) = k" if "i < gN g" for i
    using distinct_card [OF graph_okD(2) [OF assms(1) that]] assms(2) that
    by (simp add: nbrs_def)
  then have "sum_list (map (\<lambda>i. length (adj g ! i)) [0..<gN g]) = gN g * k"
    using sum_list_const [of "[0..<gN g]" "\<lambda>i. length (adj g ! i)" k] by simp
  moreover have "\<forall>i\<in>set [0..<gN g]. i < length (adj g)" using len by simp
  ultimately show ?thesis
    unfolding edgeCount_def by (simp add: edgeCount_loop)
qed

lemma makeRing_graph:
  assumes "even k" "k < n"
  shows "\<exists>g. makeRing n k = Inr g \<and> graph_ok g \<and> gN g = n \<and> (\<forall>i<n. nbrs g i = ringNbrs n k i)"
proof -
  let ?A = "\<lambda>a d. edge a ((a + d) mod n) \<union> edge a ((a + n - d) mod n)"
  have inner: "adds n (loopE (\<lambda>d. ringStep n a d) [1..<k div 2 + 1]) (\<Union>d\<in>set [1..<k div 2 + 1]. ?A a d)"
    if "a \<in> set [0..<n]" for a
  proof (rule adds_loopE)
    fix d assume "d \<in> set [1..<k div 2 + 1]"
    then have "0 < d" "d < n" using assms by auto
    moreover have "a < n" using that by simp
    ultimately show "adds n (ringStep n a d) (?A a d)" by (intro adds_ringStep)
  qed
  have "adds n (loopE (\<lambda>a. loopE (\<lambda>d. ringStep n a d) [1..<k div 2 + 1]) [0..<n])
      (\<Union>a\<in>set [0..<n]. \<Union>d\<in>set [1..<k div 2 + 1]. ?A a d)"
    by (rule adds_loopE) (rule inner)
  then obtain g where g: "loopE (\<lambda>a. loopE (\<lambda>d. ringStep n a d) [1..<k div 2 + 1]) [0..<n] (Graph_new n) = Inr g"
    "graph_ok g" "gN g = n"
    "\<forall>i<n. nbrs g i = nbrs (Graph_new n) i \<union>
       {j. (i, j) \<in> (\<Union>a\<in>set [0..<n]. \<Union>d\<in>set [1..<k div 2 + 1]. ?A a d)}"
    unfolding adds_def using Graph_new_ok(1,2) [of n] by blast
  have "nbrs g i = ringNbrs n k i" if "i < n" for i
    using g(4) that Graph_new_ok(3) [OF that] ring_pairs [OF assms that] by simp
  moreover have "makeRing n k = Inr g"
    using assms(1) g(1) by (simp add: makeRing_def)
  ultimately show ?thesis using g(2,3) by blast
qed

text \<open>
  C3, amended: \<open>makeRing(N, k)\<close> throws the invalid-parameter error exactly when \<open>k\<close>
  is odd. For even \<open>k < N\<close> it returns a graph in which node \<open>i\<close> has exactly the
  neighbours \<open>(i + d) mod N\<close> and \<open>(i - d) mod N\<close> for \<open>d = 1, ..., k/2\<close>, every node has
  degree \<open>k\<close>, and the edge count is \<open>N * k / 2\<close>.
\<close>

theorem makeRing_regular:
  "(makeRing n k = Inl InvalidParameter \<longleftrightarrow> odd k) \<and>
   (even k \<and> k < n \<longrightarrow>
      (\<exists>g. makeRing n k = Inr g \<and> gN g = n \<and>
         (\<forall>i<n. nbrs g i = ringNbrs n k i \<and> degree g (int i) = Inr k) \<and>
         edgeCount g = Inr (real (n * k) / 2)))"
proof (intro conjI impI)
  show "makeRing n k = Inl InvalidParameter \<longleftrightarrow> odd k"
    by (rule makeRing_InvalidParameter)
next
  assume a: "even k \<and> k < n"
  then obtain g where g: "makeRing n k = Inr g" "graph_ok g" "gN g = n"
    "\<forall>i<n. nbrs g i = ringNbrs n k i"
    using makeRing_graph by blast
  have c: "card (nbrs g i) = k" if "i < n" for i
    using g(4) that card_ringNbrs [of k n i] a by simp
  then have d: "degree g (int i) = Inr k" if "i < n" for i
    using degree_ok [OF g(2), of i] that g(3) by simp
  have "edgeCount g = Inr (real (n * k) / 2)"
    using edgeCount_regular [OF g(2), of k] c g(3) by simp
  with g d show "\<exists>g. makeRing n k = Inr g \<and> gN g = n \<and>
         (\<forall>i<n. nbrs g i = ringNbrs n k i \<and> degree g (int i) = Inr k) \<and>
         edgeCount g = Inr (real (n * k) / 2)"
    by blast
qed

theorem makeRing_regular_witness:
  "even (4::nat) \<and> (4::nat) < 10 \<and>
   (\<exists>g. makeRing 10 4 = Inr g \<and> gN g = 10 \<and>
      (\<forall>i<10. nbrs g i = ringNbrs 10 4 i \<and> degree g (int i) = Inr 4) \<and>
      edgeCount g = Inr 20)"
  using makeRing_regular [of 10 4] by simp

text \<open>
  C3, as claimed, asks for degree \<open>k\<close> for every \<open>N \<ge> 1\<close> and even \<open>k \<ge> 2\<close>. On a cycle
  that is too short the two sides meet, \<open>addEdge\<close> drops the repeated edges, and the
  degree stays below \<open>k\<close>: for \<open>N = 3\<close>, \<open>k = 4\<close> every node has degree 2 and there are 3
  edges, not 6.
\<close>

theorem makeRing_small_cycle:
  "makeRing 3 4 = Inr \<lparr>gN = 3, adj = [[1, 2], [0, 2], [0, 1]]\<rparr>
   \<and> degree \<lparr>gN = 3, adj = [[1, 2], [0, 2], [0, 1]]\<rparr> 0 = Inr 2
   \<and> edgeCount \<lparr>gN = 3, adj = [[1, 2], [0, 2], [0, 1]]\<rparr> = Inr 3"
  by code_simp

lemma round_sqrt_from_square: "l0 \<le> l \<Longrightarrow> round_sqrt_from (l * l) l0 = l"
proof (induction "l - l0" arbitrary: l0)
  case 0
  then have "l0 = l" by simp
  then show ?case by (simp add: round_sqrt_from.simps [of "l * l" l])
next
  case (Suc d)
  from Suc.hyps(2) have lt: "Suc l0 \<le> l" by arith
  have "Suc l0 * Suc l0 \<le> l * l" using lt lt by (rule mult_le_mono)
  then have "l0 * l0 + l0 < l * l" by simp
  then have "round_sqrt_from (l * l) l0 = round_sqrt_from (l * l) (Suc l0)"
    by (simp add: round_sqrt_from.simps [of "l * l" l0])
  moreover have "round_sqrt_from (l * l) (Suc l0) = l"
  proof (rule Suc.hyps(1))
    show "d = l - Suc l0" using Suc.hyps(2) by arith
    show "Suc l0 \<le> l" by (rule lt)
  qed
  ultimately show ?case by simp
qed

lemma round_sqrt_square: "round_sqrt (l * l) = l"
  by (simp add: round_sqrt_def round_sqrt_from_square)

lemma latticeStep_error: "latticeStep l m y x g = Inl e \<Longrightarrow> e = TypeError"
  by (auto simp: latticeStep_def Let_def split: sum.splits dest: addEdge_error)

lemma makeLattice_InvalidParameter:
  "makeLattice n = Inl InvalidParameter \<longleftrightarrow> \<not> (\<exists>l. n = l * l)"
proof
  assume a: "makeLattice n = Inl InvalidParameter"
  show "\<not> (\<exists>l. n = l * l)"
  proof
    assume "\<exists>l. n = l * l"
    then obtain l where n: "n = l * l" ..
    with a have "loopE (\<lambda>y. loopE (\<lambda>x. latticeStep l l y x) [0..<l]) [0..<l] (Graph_new n)
        = Inl InvalidParameter"
      by (simp add: makeLattice_def round_sqrt_square Let_def)
    from loopE_Inl [OF this] obtain y s1 where
      "loopE (\<lambda>x. latticeStep l l y x) [0..<l] s1 = Inl InvalidParameter" by blast
    from loopE_Inl [OF this] obtain x s2 where "latticeStep l l y x s2 = Inl InvalidParameter" by blast
    from latticeStep_error [OF this] show False by simp
  qed
next
  assume a: "\<not> (\<exists>l. n = l * l)"
  then have "round_sqrt n * round_sqrt n \<noteq> n" by metis
  then show "makeLattice n = Inl InvalidParameter"
    by (simp add: makeLattice_def Let_def)
qed


lemma cell_lt: "x < l \<Longrightarrow> y < l \<Longrightarrow> y * l + x < l * l" for x y l :: nat
proof -
  assume x: "x < l" and y: "y < l"
  then have "y * l + x < y * l + l" by simp
  also have "\<dots> = Suc y * l" by simp
  also have "\<dots> \<le> l * l" using y by (intro mult_le_mono1) simp
  finally show ?thesis .
qed

lemma cell_mod: "x < l \<Longrightarrow> (y * l + x) mod l = x" for x y l :: nat
  by simp

lemma cell_div: "x < l \<Longrightarrow> (y * l + x) div l = y" for x y l :: nat
  by simp

lemma cell_inj:
  fixes x y l :: nat
  assumes "y * l + x = y' * l + x'" "x < l" "x' < l"
  shows "x = x' \<and> y = y'"
proof -
  have "(y * l + x) mod l = (y' * l + x') mod l" "(y * l + x) div l = (y' * l + x') div l"
    using assms(1) by simp_all
  then show ?thesis using assms(2,3) by (simp add: cell_mod cell_div)
qed

lemma idx_plain:
  assumes "0 < l"
  shows "idx l l (int x) (int y) = int ((y mod l) * l + x mod l)"
proof -
  have "js_rem (int y + int l) (int l) = int (y mod l)"
    using js_rem_nat [OF assms, of "y + l"] by simp
  moreover have "js_rem (int x + int l) (int l) = int (x mod l)"
    using js_rem_nat [OF assms, of "x + l"] by simp
  ultimately show ?thesis by (simp add: idx_def)
qed

lemma idx_x_plus:
  assumes "0 < l"
  shows "idx l l (int x + 1) (int y) = int ((y mod l) * l + (x + 1) mod l)"
  using idx_plain [OF assms, of "x + 1" y] by (simp add: add.commute)

lemma idx_y_plus:
  assumes "0 < l"
  shows "idx l l (int x) (int y + 1) = int (((y + 1) mod l) * l + x mod l)"
  using idx_plain [OF assms, of x "y + 1"] by (simp add: add.commute)

lemma idx_x_minus:
  assumes "0 < l"
  shows "idx l l (int x - 1) (int y) = int ((y mod l) * l + (x + l - 1) mod l)"
proof -
  have "js_rem (int y + int l) (int l) = int (y mod l)"
    using js_rem_nat [OF assms, of "y + l"] by simp
  moreover have "int x - 1 + int l = int (x + l - 1)" using assms by simp
  then have "js_rem (int x - 1 + int l) (int l) = int ((x + l - 1) mod l)"
    using js_rem_nat [OF assms, of "x + l - 1"] by simp
  ultimately show ?thesis by (simp add: idx_def)
qed

lemma idx_y_minus:
  assumes "0 < l"
  shows "idx l l (int x) (int y - 1) = int (((y + l - 1) mod l) * l + x mod l)"
proof -
  have "js_rem (int x + int l) (int l) = int (x mod l)"
    using js_rem_nat [OF assms, of "x + l"] by simp
  moreover have "int y - 1 + int l = int (y + l - 1)" using assms by simp
  then have "js_rem (int y - 1 + int l) (int l) = int ((y + l - 1) mod l)"
    using js_rem_nat [OF assms, of "y + l - 1"] by simp
  ultimately show ?thesis by (simp add: idx_def)
qed

lemma latticeNbrs_cell:
  assumes "x < l"
  shows "latticeNbrs l (y * l + x) =
    {y * l + (x + 1) mod l, y * l + (x + l - 1) mod l, ((y + 1) mod l) * l + x, ((y + l - 1) mod l) * l + x}"
  using assms by (simp add: latticeNbrs_def Let_def)

lemma adds_latticeStep:
  assumes "x < l" "y < l"
  shows "adds (l * l) (latticeStep l l y x) (\<Union>c\<in>latticeNbrs l (y * l + x). edge (y * l + x) c)"
proof -
  have l: "0 < l" using assms by simp
  let ?i = "y * l + x"
  let ?c1 = "y * l + (x + 1) mod l" and ?c2 = "y * l + (x + l - 1) mod l"
  let ?c3 = "((y + 1) mod l) * l + x" and ?c4 = "((y + l - 1) mod l) * l + x"
  have i: "?i < l * l" using assms by (rule cell_lt)
  have c1: "?c1 < l * l" using l assms by (intro cell_lt) simp_all
  have c2: "?c2 < l * l" using l assms by (intro cell_lt) simp_all
  have c3: "?c3 < l * l" using l assms by (intro cell_lt) simp_all
  have c4: "?c4 < l * l" using l assms by (intro cell_lt) simp_all
  have i0: "idx l l (int x) (int y) = int ?i"
    using assms by (simp add: idx_plain [OF l])
  have i1: "idx l l (int x + 1) (int y) = int ?c1"
    using assms by (simp add: idx_x_plus [OF l])
  have i2: "idx l l (int x - 1) (int y) = int ?c2"
    using assms by (simp add: idx_x_minus [OF l])
  have i3: "idx l l (int x) (int y + 1) = int ?c3"
    using assms by (simp add: idx_y_plus [OF l])
  have i4: "idx l l (int x) (int y - 1) = int ?c4"
    using assms by (simp add: idx_y_minus [OF l])
  have e: "latticeStep l l y x = (\<lambda>g.
      case addEdge g (int ?i) (int ?c1) of Inl e \<Rightarrow> Inl e | Inr g1 \<Rightarrow>
     (case addEdge g1 (int ?i) (int ?c2) of Inl e \<Rightarrow> Inl e | Inr g2 \<Rightarrow>
     (case addEdge g2 (int ?i) (int ?c3) of Inl e \<Rightarrow> Inl e | Inr g3 \<Rightarrow>
      addEdge g3 (int ?i) (int ?c4))))"
    unfolding latticeStep_def Let_def i0 i1 i2 i3 i4 ..
  have "adds (l * l) (latticeStep l l y x) (edge ?i ?c1 \<union> (edge ?i ?c2 \<union> (edge ?i ?c3 \<union> edge ?i ?c4)))"
    unfolding e
    by (intro adds_seq adds_addEdge i c1 c2 c3 c4)
  moreover have "(\<Union>c\<in>latticeNbrs l ?i. edge ?i c)
      = edge ?i ?c1 \<union> (edge ?i ?c2 \<union> (edge ?i ?c3 \<union> edge ?i ?c4))"
    unfolding latticeNbrs_cell [OF assms(1)] by auto
  ultimately show ?thesis by simp
qed


lemma wrap_facts:
  fixes x l :: nat
  assumes "x < l" "3 \<le> l"
  shows "(x + 1) mod l < l" "(x + l - 1) mod l < l"
    and "(x + 1) mod l \<noteq> x" "(x + l - 1) mod l \<noteq> x"
    and "(x + 1) mod l \<noteq> (x + l - 1) mod l"
    and "((x + 1) mod l + l - 1) mod l = x" "((x + l - 1) mod l + 1) mod l = x"
proof -
  have s: "(x + 1) mod l = (if x + 1 < l then x + 1 else x + 1 - l)"
    using assms by (intro mod_add_small) simp_all
  have p: "(x + l - 1) mod l = (if 1 \<le> x then x - 1 else x + l - 1)"
    using assms by (intro mod_sub_small) simp_all
  show "(x + 1) mod l < l" "(x + l - 1) mod l < l" using assms by simp_all
  show "(x + 1) mod l \<noteq> x" "(x + l - 1) mod l \<noteq> x" "(x + 1) mod l \<noteq> (x + l - 1) mod l"
    using assms unfolding s p by arith+
  show "((x + 1) mod l + l - 1) mod l = x"
  proof (cases "x + 1 < l")
    case True
    then have "(x + 1) mod l = x + 1" by simp
    then show ?thesis using assms by simp
  next
    case False
    then have "x + 1 = l" using assms by simp
    then have "(x + 1) mod l = 0" by simp
    then show ?thesis using \<open>x + 1 = l\<close> by auto
  qed
  show "((x + l - 1) mod l + 1) mod l = x"
  proof (cases "1 \<le> x")
    case True
    then have "(x + l - 1) mod l = x - 1" using p by simp
    then show ?thesis using True assms by simp
  next
    case False
    then have "x = 0" by simp
    then show ?thesis using assms by simp
  qed
qed

lemma cell_coords:
  fixes i l :: nat
  assumes "i < l * l"
  shows "i mod l < l" "i div l < l" "i div l * l + i mod l = i"
proof -
  have l: "0 < l" using assms by (cases l) simp_all
  then show "i mod l < l" by simp
  show "i div l < l" using assms l by (simp add: less_mult_imp_div_less)
  show "i div l * l + i mod l = i" by simp
qed

lemma latticeNbrs_range:
  assumes "3 \<le> l" "i < l * l" "c \<in> latticeNbrs l i"
  shows "c < l * l"
proof -
  note xy = cell_coords [OF assms(2)]
  note wx = wrap_facts [OF xy(1) assms(1)] and wy = wrap_facts [OF xy(2) assms(1)]
  from assms(3) have "c \<in> {i div l * l + (i mod l + 1) mod l, i div l * l + (i mod l + l - 1) mod l,
      ((i div l + 1) mod l) * l + i mod l, ((i div l + l - 1) mod l) * l + i mod l}"
    by (simp add: latticeNbrs_def Let_def)
  then show ?thesis
    using cell_lt [OF wx(1) xy(2)] cell_lt [OF wx(2) xy(2)] cell_lt [OF xy(1) wy(1)] cell_lt [OF xy(1) wy(2)]
    by auto
qed

lemma latticeNbrs_sym:
  assumes "3 \<le> l" "i < l * l" "c \<in> latticeNbrs l i"
  shows "i \<in> latticeNbrs l c"
proof -
  note xy = cell_coords [OF assms(2)]
  note wx = wrap_facts [OF xy(1) assms(1)] and wy = wrap_facts [OF xy(2) assms(1)]
  let ?x = "i mod l" and ?y = "i div l"
  from assms(3) consider
    "c = ?y * l + (?x + 1) mod l" | "c = ?y * l + (?x + l - 1) mod l"
    | "c = ((?y + 1) mod l) * l + ?x" | "c = ((?y + l - 1) mod l) * l + ?x"
    by (auto simp: latticeNbrs_def Let_def)
  then show ?thesis
  proof cases
    case 1
    have "?y * l + ((?x + 1) mod l + l - 1) mod l \<in> latticeNbrs l c"
      unfolding 1 latticeNbrs_cell [OF wx(1)] by simp
    then show ?thesis by (simp only: wx(6) xy(3))
  next
    case 2
    have "?y * l + ((?x + l - 1) mod l + 1) mod l \<in> latticeNbrs l c"
      unfolding 2 latticeNbrs_cell [OF wx(2)] by simp
    then show ?thesis by (simp only: wx(7) xy(3))
  next
    case 3
    have "(((?y + 1) mod l + l - 1) mod l) * l + ?x \<in> latticeNbrs l c"
      unfolding 3 latticeNbrs_cell [OF xy(1)] by simp
    then show ?thesis by (simp only: wy(6) xy(3))
  next
    case 4
    have "(((?y + l - 1) mod l + 1) mod l) * l + ?x \<in> latticeNbrs l c"
      unfolding 4 latticeNbrs_cell [OF xy(1)] by simp
    then show ?thesis by (simp only: wy(7) xy(3))
  qed
qed

lemma card_latticeNbrs:
  assumes "3 \<le> l" "i < l * l"
  shows "card (latticeNbrs l i) = 4" "i \<notin> latticeNbrs l i"
proof -
  note xy = cell_coords [OF assms(2)]
  note wx = wrap_facts [OF xy(1) assms(1)] and wy = wrap_facts [OF xy(2) assms(1)]
  let ?x = "i mod l" and ?y = "i div l"
  let ?c1 = "?y * l + (?x + 1) mod l" and ?c2 = "?y * l + (?x + l - 1) mod l"
  let ?c3 = "((?y + 1) mod l) * l + ?x" and ?c4 = "((?y + l - 1) mod l) * l + ?x"
  have n: "latticeNbrs l i = {?c1, ?c2, ?c3, ?c4}" by (simp add: latticeNbrs_def Let_def)
  have "?c1 \<noteq> ?c2" using wx(5) by simp
  moreover have "?c1 \<noteq> ?c3" using cell_inj [OF _ wx(1) xy(1)] wx(3) by blast
  moreover have "?c1 \<noteq> ?c4" using cell_inj [OF _ wx(1) xy(1)] wx(3) by blast
  moreover have "?c2 \<noteq> ?c3" using cell_inj [OF _ wx(2) xy(1)] wx(4) by blast
  moreover have "?c2 \<noteq> ?c4" using cell_inj [OF _ wx(2) xy(1)] wx(4) by blast
  moreover have "?c3 \<noteq> ?c4" using cell_inj [OF _ xy(1) xy(1)] wy(5) by blast
  ultimately show "card (latticeNbrs l i) = 4" unfolding n by simp
  have "?y * l + ?x \<noteq> ?c1" using cell_inj [OF _ xy(1) wx(1)] wx(3) by metis
  moreover have "?y * l + ?x \<noteq> ?c2" using cell_inj [OF _ xy(1) wx(2)] wx(4) by metis
  moreover have "?y * l + ?x \<noteq> ?c3" using cell_inj [OF _ xy(1) xy(1)] wy(3) by metis
  moreover have "?y * l + ?x \<noteq> ?c4" using cell_inj [OF _ xy(1) xy(1)] wy(4) by metis
  ultimately have "?y * l + ?x \<notin> {?c1, ?c2, ?c3, ?c4}" by blast
  with xy(3) show "i \<notin> latticeNbrs l i" unfolding n by metis
qed


lemma lattice_pairs:
  assumes "3 \<le> l" "i < l * l"
  shows "{j. (i, j) \<in> (\<Union>y\<in>set [0..<l]. \<Union>x\<in>set [0..<l].
            \<Union>c\<in>latticeNbrs l (y * l + x). edge (y * l + x) c)} = latticeNbrs l i"
    (is "?L = ?R")
proof (intro set_eqI iffI)
  fix j assume "j \<in> ?L"
  then obtain y x c where "y \<in> set [0..<l]" "x \<in> set [0..<l]"
    and c: "c \<in> latticeNbrs l (y * l + x)" and e: "(i, j) \<in> edge (y * l + x) c"
    by blast
  then have a: "y * l + x < l * l" by (simp add: cell_lt)
  from e have "(i = y * l + x \<and> j = c) \<or> (i = c \<and> j = y * l + x)"
    by (auto simp: edge_def split: if_splits)
  then show "j \<in> ?R"
  proof
    assume "i = y * l + x \<and> j = c"
    with c show ?thesis by simp
  next
    assume "i = c \<and> j = y * l + x"
    with latticeNbrs_sym [OF assms(1) a c] show ?thesis by simp
  qed
next
  fix j assume j: "j \<in> ?R"
  note xy = cell_coords [OF assms(2)]
  have "j \<noteq> i" using card_latticeNbrs(2) [OF assms] j by blast
  then have "(i, j) \<in> edge i j" by (simp add: edge_def)
  then have "(i, j) \<in> (\<Union>c\<in>latticeNbrs l (i div l * l + i mod l). edge (i div l * l + i mod l) c)"
    using j by (simp only: xy(3)) blast
  moreover have "i div l \<in> set [0..<l]" "i mod l \<in> set [0..<l]" using xy(1,2) by simp_all
  ultimately show "j \<in> ?L" by blast
qed

lemma makeLattice_graph:
  assumes "3 \<le> l"
  shows "\<exists>g. makeLattice (l * l) = Inr g \<and> graph_ok g \<and> gN g = l * l
           \<and> (\<forall>i<l * l. nbrs g i = latticeNbrs l i)"
proof -
  let ?n = "l * l"
  let ?A = "\<lambda>y x. \<Union>c\<in>latticeNbrs l (y * l + x). edge (y * l + x) c"
  have inner: "adds ?n (loopE (\<lambda>x. latticeStep l l y x) [0..<l]) (\<Union>x\<in>set [0..<l]. ?A y x)"
    if "y \<in> set [0..<l]" for y
  proof (rule adds_loopE)
    fix x assume "x \<in> set [0..<l]"
    then have "x < l" by simp
    moreover have "y < l" using that by simp
    ultimately show "adds ?n (latticeStep l l y x) (?A y x)" by (rule adds_latticeStep)
  qed
  have "adds ?n (loopE (\<lambda>y. loopE (\<lambda>x. latticeStep l l y x) [0..<l]) [0..<l])
      (\<Union>y\<in>set [0..<l]. \<Union>x\<in>set [0..<l]. ?A y x)"
    by (rule adds_loopE) (rule inner)
  then obtain g where g: "loopE (\<lambda>y. loopE (\<lambda>x. latticeStep l l y x) [0..<l]) [0..<l] (Graph_new ?n) = Inr g"
    "graph_ok g" "gN g = ?n"
    "\<forall>i<?n. nbrs g i = nbrs (Graph_new ?n) i \<union>
       {j. (i, j) \<in> (\<Union>y\<in>set [0..<l]. \<Union>x\<in>set [0..<l]. ?A y x)}"
    unfolding adds_def using Graph_new_ok(1,2) [of ?n] by blast
  have "nbrs g i = latticeNbrs l i" if "i < ?n" for i
    using g(4) that Graph_new_ok(3) [OF that] lattice_pairs [OF assms that] by simp
  moreover have "makeLattice ?n = Inr g"
    using g(1) by (simp add: makeLattice_def round_sqrt_square Let_def)
  ultimately show ?thesis using g(2,3) by blast
qed

text \<open>
  C2, amended: \<open>makeLattice(N)\<close> throws the invalid-parameter error exactly when \<open>N\<close>
  is not a perfect square. For \<open>N = l * l\<close> with side \<open>l \<ge> 3\<close> it returns a graph in
  which every node has exactly its four von Neumann neighbours on the torus, hence degree
  4, and the edge count is \<open>2 * N\<close>.
\<close>

theorem makeLattice_torus:
  "(makeLattice n = Inl InvalidParameter \<longleftrightarrow> \<not> (\<exists>l. n = l * l)) \<and>
   (3 \<le> l \<longrightarrow>
      (\<exists>g. makeLattice (l * l) = Inr g \<and> gN g = l * l \<and>
         (\<forall>i<l * l. nbrs g i = latticeNbrs l i \<and> degree g (int i) = Inr 4) \<and>
         edgeCount g = Inr (real (2 * (l * l)))))"
proof (intro conjI impI)
  show "makeLattice n = Inl InvalidParameter \<longleftrightarrow> \<not> (\<exists>l. n = l * l)"
    by (rule makeLattice_InvalidParameter)
next
  assume a: "3 \<le> l"
  then obtain g where g: "makeLattice (l * l) = Inr g" "graph_ok g" "gN g = l * l"
    "\<forall>i<l * l. nbrs g i = latticeNbrs l i"
    using makeLattice_graph by blast
  have c: "card (nbrs g i) = 4" if "i < l * l" for i
    using g(4) that card_latticeNbrs(1) [OF a that] by simp
  then have d: "degree g (int i) = Inr 4" if "i < l * l" for i
    using degree_ok [OF g(2), of i] that g(3) by simp
  have "edgeCount g = Inr (real (l * l * 4) / 2)"
    using edgeCount_regular [OF g(2), of 4] c g(3) by simp
  then have "edgeCount g = Inr (real (2 * (l * l)))" by simp
  with g d show "\<exists>g. makeLattice (l * l) = Inr g \<and> gN g = l * l \<and>
         (\<forall>i<l * l. nbrs g i = latticeNbrs l i \<and> degree g (int i) = Inr 4) \<and>
         edgeCount g = Inr (real (2 * (l * l)))"
    by blast
qed

theorem makeLattice_torus_witness:
  "(3::nat) \<le> 4 \<and>
   (\<exists>g. makeLattice 16 = Inr g \<and> gN g = 16 \<and>
      (\<forall>i<16. nbrs g i = latticeNbrs 4 i \<and> degree g (int i) = Inr 4) \<and>
      edgeCount g = Inr 32)"
  using makeLattice_torus [of 16 4] by simp

text \<open>
  C2, as claimed, asks for degree 4 for every perfect square. On the 2 by 2 torus the left
  and right neighbour of a node coincide, and so do the upper and lower one; \<open>addEdge\<close>
  drops the repeated edges and every node has degree 2, with 4 edges instead of 8.
\<close>

theorem makeLattice_two_by_two:
  "makeLattice 4 = Inr \<lparr>gN = 4, adj = [[1, 2], [0, 3], [0, 3], [1, 2]]\<rparr>
   \<and> degree \<lparr>gN = 4, adj = [[1, 2], [0, 3], [0, 3], [1, 2]]\<rparr> 0 = Inr 2
   \<and> edgeCount \<lparr>gN = 4, adj = [[1, 2], [0, 3], [0, 3], [1, 2]]\<rparr> = Inr 4"
  by code_simp

lemma graph_ok_simple:
  assumes "graph_ok g"
  shows "symmetric_adj g" "no_self_loops g" "no_duplicates g"
proof -
  show "symmetric_adj g"
    unfolding symmetric_adj_def using graph_okD(5) [OF assms] by blast
  show "no_self_loops g"
    unfolding no_self_loops_def using graph_okD(3) [OF assms] by blast
  show "no_duplicates g"
    unfolding no_duplicates_def using graph_okD(2) [OF assms] by blast
qed

lemma ringStep_preserves:
  assumes "graph_ok g" "ringStep n i d g = Inr g'"
  shows "graph_ok g'"
proof -
  from assms(2) obtain g1 where "addEdge g (int i) (js_rem (int i + int d) (int n)) = Inr g1"
    "addEdge g1 (int i) (js_rem (int i - int d + int n) (int n)) = Inr g'"
    by (auto simp: ringStep_def Let_def split: sum.splits)
  then show ?thesis using addEdge_preserves assms(1) by blast
qed

lemma latticeStep_preserves:
  assumes "graph_ok g" "latticeStep l m y x g = Inr g'"
  shows "graph_ok g'"
proof -
  from assms(2) obtain g1 g2 g3 where
    "addEdge g (idx l m (int x) (int y)) (idx l m (int x + 1) (int y)) = Inr g1"
    "addEdge g1 (idx l m (int x) (int y)) (idx l m (int x - 1) (int y)) = Inr g2"
    "addEdge g2 (idx l m (int x) (int y)) (idx l m (int x) (int y + 1)) = Inr g3"
    "addEdge g3 (idx l m (int x) (int y)) (idx l m (int x) (int y - 1)) = Inr g'"
    by (auto simp: latticeStep_def Let_def split: sum.splits)
  then show ?thesis using addEdge_preserves assms(1) by blast
qed

lemma makeRing_ok:
  assumes "makeRing n k = Inr g"
  shows "graph_ok g"
proof -
  from assms have r: "loopE (\<lambda>i. loopE (\<lambda>d. ringStep n i d) [1..<k div 2 + 1]) [0..<n] (Graph_new n) = Inr g"
    by (simp add: makeRing_def split: if_splits)
  have inner: "graph_ok s'" if "graph_ok s" "loopE (\<lambda>d. ringStep n i d) [1..<k div 2 + 1] s = Inr s'" for i s s'
    using _ that by (rule loopE_invariant) (rule ringStep_preserves)
  show ?thesis
    using _ Graph_new_ok(1) r by (rule loopE_invariant) (rule inner)
qed

lemma makeLattice_ok:
  assumes "makeLattice n = Inr g"
  shows "graph_ok g"
proof -
  obtain l where r: "loopE (\<lambda>y. loopE (\<lambda>x. latticeStep l l y x) [0..<l]) [0..<l] (Graph_new n) = Inr g"
    using assms by (auto simp: makeLattice_def Let_def split: if_splits)
  have inner: "graph_ok s'" if "graph_ok s" "loopE (\<lambda>x. latticeStep l l y x) [0..<l] s = Inr s'" for y s s'
    using _ that by (rule loopE_invariant) (rule latticeStep_preserves)
  show ?thesis
    using _ Graph_new_ok(1) r by (rule loopE_invariant) (rule inner)
qed

lemma erStep_preserves:
  assumes "graph_ok (fst gs)" "erStep p i j gs = Inr gs'"
  shows "graph_ok (fst gs')"
  using assms addEdge_preserves
  by (auto simp: erStep_def Let_def split: prod.splits if_splits sum.splits)

lemma makeErdosRenyi_ok:
  assumes "makeErdosRenyi n p rng = Inr (g, rng')"
  shows "graph_ok g"
proof -
  from assms obtain s where r: "loopE (\<lambda>i. loopE (\<lambda>j. erStep p i j) [i + 1..<n]) [0..<n] (Graph_new n, rng) = Inr (g, s)"
    by (auto simp: makeErdosRenyi_def split: sum.splits prod.splits)
  have inner: "graph_ok (fst s')" if "graph_ok (fst s)" "loopE (\<lambda>j. erStep p i j) [i + 1..<n] s = Inr s'" for i s s'
    using _ that by (rule loopE_invariant [where P = "\<lambda>s. graph_ok (fst s)"]) (rule erStep_preserves)
  have "graph_ok (fst (g, s))"
    using _ _ r
  proof (rule loopE_invariant [where P = "\<lambda>s. graph_ok (fst s)"])
    show "graph_ok (fst (Graph_new n, rng))" by (simp add: Graph_new_ok(1))
  qed (rule inner)
  then show ?thesis by simp
qed

lemma addTarget_preserves:
  assumes "graph_ok g" "addTarget v u g = Inr g'"
  shows "graph_ok g'"
  using assms addEdge_preserves by (auto simp: addTarget_def split: option.splits)

lemma attachNode_preserves:
  assumes "graph_ok (fst st)" "attachNode m v st = Some (Inr st')"
  shows "graph_ok (fst st')"
proof -
  obtain g pool s where st: "st = (g, pool, s)" by (cases st)
  from assms(2) obtain targets g' where
    "loopE (addTarget v) targets g = Inr g'" and "fst st' = g'"
    unfolding st attachNode_def Let_def
    by (auto split: option.splits sum.splits prod.splits)
  moreover have "graph_ok g" using assms(1) st by simp
  ultimately show ?thesis
    using loopE_invariant [of targets graph_ok "addTarget v" g g'] addTarget_preserves by blast
qed

lemma attachLoop_preserves:
  assumes "graph_ok (fst st)" "attachLoop m vs st = Some (Inr st')"
  shows "graph_ok (fst st')"
  using assms
proof (induction vs arbitrary: st)
  case Nil
  then show ?case by simp
next
  case (Cons v vs)
  from Cons.prems(2) obtain st1 where s1: "attachNode m v st = Some (Inr st1)"
    "attachLoop m vs st1 = Some (Inr st')"
    by (auto split: option.splits sum.splits)
  have "graph_ok (fst st1)" using Cons.prems(1) s1(1) by (rule attachNode_preserves)
  then show ?case using s1(2) by (rule Cons.IH)
qed

lemma makeClique_ok:
  assumes "makeClique n m0 = Inr g"
  shows "graph_ok g"
proof -
  have inner: "graph_ok s'" if "graph_ok s" "loopE (\<lambda>j g. addEdge g (int i) (int j)) [i + 1..<m0] s = Inr s'" for i s s'
    using _ that by (rule loopE_invariant) (use addEdge_preserves in blast)
  show ?thesis
    using _ Graph_new_ok(1) assms [unfolded makeClique_def] by (rule loopE_invariant) (rule inner)
qed

lemma makeBA_ok:
  assumes "makeBA n m0 m rng = Some (Inr (g, rng'))"
  shows "graph_ok g"
proof -
  from assms obtain g0 pool pool' s' where c: "makeClique n m0 = Inr g0"
    and a: "attachLoop m [m0..<n] (g0, pool, rng) = Some (Inr (g, pool', s'))"
    by (auto simp: makeBA_def split: if_splits sum.splits option.splits prod.splits)
  have "graph_ok (fst (g0, pool, rng))" using makeClique_ok [OF c] by simp
  from attachLoop_preserves [OF this a] show ?thesis by simp
qed

text \<open>
  C8: whenever one of the four generators returns a graph, its adjacency is symmetric, has
  no self-loops and lists no neighbour twice (and every entry is a node). \<open>makeRing\<close>
  returns only for even \<open>k\<close>, \<open>makeLattice\<close> only for a perfect square, \<open>makeBA\<close> only for
  valid \<open>m0\<close> and \<open>m\<close>; the statement holds for every state of the generator.
\<close>

theorem generators_simple:
  "(makeRing n k = Inr g1 \<longrightarrow>
      graph_ok g1 \<and> symmetric_adj g1 \<and> no_self_loops g1 \<and> no_duplicates g1) \<and>
   (makeLattice n = Inr g2 \<longrightarrow>
      graph_ok g2 \<and> symmetric_adj g2 \<and> no_self_loops g2 \<and> no_duplicates g2) \<and>
   (makeErdosRenyi n p rng = Inr (g3, rng3) \<longrightarrow>
      graph_ok g3 \<and> symmetric_adj g3 \<and> no_self_loops g3 \<and> no_duplicates g3) \<and>
   (makeBA n m0 m rng = Some (Inr (g4, rng4)) \<longrightarrow>
      graph_ok g4 \<and> symmetric_adj g4 \<and> no_self_loops g4 \<and> no_duplicates g4)"
  using makeRing_ok makeLattice_ok makeErdosRenyi_ok makeBA_ok graph_ok_simple by blast


lemma drawPositions_unfold:
  "drawPositions n s = (if n = 0 then s else drawPositions (n - 1) (snd (random (snd (random s)))))"
  by (cases n) simp_all

lemma replicate_unfold: "replicate n x = (if n = 0 then [] else x # replicate (n - 1) x)"
  by (cases n) simp_all

lemma draws_from_1:
  "nextU32 1 = (270369, 270369)"
  "nextU32 270369 = (67634689, 67634689)"
  "nextU32 67634689 = (2647435461, 2647435461)"
  "nextU32 2647435461 = (307599695, 307599695)"
  "nextU32 307599695 = (2398689233, 2398689233)"
  "nextU32 2398689233 = (745495504, 745495504)"
  "nextU32 745495504 = (632435482, 632435482)"
  "nextU32 632435482 = (435756210, 435756210)"
  "nextU32 435756210 = (2005365029, 2005365029)"
  "nextU32 2005365029 = (2916098932, 2916098932)"
  "nextU32 2916098932 = (2657092299, 2657092299)"
  by (simp_all add: nextU32_def Let_def)

lemmas eval_defs = erStep_def random_def Let_def Graph_new_def
  addEdge_def push_nbr_def upt_rec drawPositions_unfold RNG_new_def js_get_def
  degree_def set_add_def pool_get_def RNG_int_def addTarget_def replicate_unfold

lemma makeRing_4_2: "makeRing 4 2 = Inr \<lparr>gN = 4, adj = [[1, 3], [0, 2], [1, 3], [0, 2]]\<rparr>"
  by code_simp

lemma makeLattice_9:
  "makeLattice 9 = Inr \<lparr>gN = 9, adj = [[1, 2, 3, 6], [0, 2, 4, 7], [0, 1, 5, 8], [0, 4, 5, 6],
     [1, 3, 5, 7], [2, 3, 4, 8], [0, 3, 7, 8], [1, 4, 6, 8], [2, 5, 6, 7]]\<rparr>"
  by code_simp

lemma makeErdosRenyi_3_half:
  "makeErdosRenyi 3 (1 / 2) (RNG_new 1) = Inr (\<lparr>gN = 3, adj = [[1, 2], [0], [0]]\<rparr>, 2005365029)"
  by (simp add: makeErdosRenyi_def eval_defs draws_from_1)

lemma makeBA_4_3_2:
  "makeBA 4 3 2 (RNG_new 1)
     = Some (Inr (\<lparr>gN = 4, adj = [[1, 2, 3], [0, 2, 3], [0, 1], [0, 1]]\<rparr>, 2657092299))"
  by (simp add: makeBA_def makeClique_def initPool_def attachNode_def pickTargets.simps
      eval_defs draws_from_1)


theorem generators_simple_witness:
  "makeRing 4 2 = Inr \<lparr>gN = 4, adj = [[1, 3], [0, 2], [1, 3], [0, 2]]\<rparr>
   \<and> symmetric_adj \<lparr>gN = 4, adj = [[1, 3], [0, 2], [1, 3], [0, 2]]\<rparr>
   \<and> no_self_loops \<lparr>gN = 4, adj = [[1, 3], [0, 2], [1, 3], [0, 2]]\<rparr>
   \<and> no_duplicates \<lparr>gN = 4, adj = [[1, 3], [0, 2], [1, 3], [0, 2]]\<rparr>
   \<and> makeLattice 9 = Inr \<lparr>gN = 9, adj = [[1, 2, 3, 6], [0, 2, 4, 7], [0, 1, 5, 8], [0, 4, 5, 6],
     [1, 3, 5, 7], [2, 3, 4, 8], [0, 3, 7, 8], [1, 4, 6, 8], [2, 5, 6, 7]]\<rparr>
   \<and> symmetric_adj \<lparr>gN = 9, adj = [[1, 2, 3, 6], [0, 2, 4, 7], [0, 1, 5, 8], [0, 4, 5, 6],
     [1, 3, 5, 7], [2, 3, 4, 8], [0, 3, 7, 8], [1, 4, 6, 8], [2, 5, 6, 7]]\<rparr>
   \<and> makeErdosRenyi 3 (1 / 2) (RNG_new 1) = Inr (\<lparr>gN = 3, adj = [[1, 2], [0], [0]]\<rparr>, 2005365029)
   \<and> symmetric_adj \<lparr>gN = 3, adj = [[1, 2], [0], [0]]\<rparr>
   \<and> no_self_loops \<lparr>gN = 3, adj = [[1, 2], [0], [0]]\<rparr>
   \<and> no_duplicates \<lparr>gN = 3, adj = [[1, 2], [0], [0]]\<rparr>
   \<and> makeBA 4 3 2 (RNG_new 1)
     = Some (Inr (\<lparr>gN = 4, adj = [[1, 2, 3], [0, 2, 3], [0, 1], [0, 1]]\<rparr>, 2657092299))
   \<and> symmetric_adj \<lparr>gN = 4, adj = [[1, 2, 3], [0, 2, 3], [0, 1], [0, 1]]\<rparr>
   \<and> no_self_loops \<lparr>gN = 4, adj = [[1, 2, 3], [0, 2, 3], [0, 1], [0, 1]]\<rparr>
   \<and> no_duplicates \<lparr>gN = 4, adj = [[1, 2, 3], [0, 2, 3], [0, 1], [0, 1]]\<rparr>"
proof -
  let ?G1 = "\<lparr>gN = 4, adj = [[1, 3], [0, 2], [1, 3], [0, 2]]\<rparr>"
  let ?G2 = "\<lparr>gN = 9, adj = [[1, 2, 3, 6], [0, 2, 4, 7], [0, 1, 5, 8], [0, 4, 5, 6],
        [1, 3, 5, 7], [2, 3, 4, 8], [0, 3, 7, 8], [1, 4, 6, 8], [2, 5, 6, 7]]\<rparr>"
  let ?G3 = "\<lparr>gN = 3, adj = [[1, 2], [0], [0]]\<rparr>"
  let ?G4 = "\<lparr>gN = 4, adj = [[1, 2, 3], [0, 2, 3], [0, 1], [0, 1]]\<rparr>"
  have "graph_ok ?G1 \<and> symmetric_adj ?G1 \<and> no_self_loops ?G1 \<and> no_duplicates ?G1"
    using generators_simple [where n = 4 and k = 2 and ?g1.0 = ?G1] makeRing_4_2 by blast
  moreover have "graph_ok ?G2 \<and> symmetric_adj ?G2 \<and> no_self_loops ?G2 \<and> no_duplicates ?G2"
    using generators_simple [where n = 9 and ?g2.0 = ?G2] makeLattice_9 by blast
  moreover have "graph_ok ?G3 \<and> symmetric_adj ?G3 \<and> no_self_loops ?G3 \<and> no_duplicates ?G3"
    using generators_simple [where n = 3 and p = "1 / 2" and rng = "RNG_new 1"
      and ?g3.0 = ?G3 and ?rng3.0 = 2005365029] makeErdosRenyi_3_half by blast
  moreover have "graph_ok ?G4 \<and> symmetric_adj ?G4 \<and> no_self_loops ?G4 \<and> no_duplicates ?G4"
    using generators_simple [where n = 4 and ?m0.0 = 3 and m = 2 and rng = "RNG_new 1"
      and ?g4.0 = ?G4 and ?rng4.0 = 2657092299] makeBA_4_3_2 by blast
  ultimately show ?thesis
    using makeRing_4_2 makeLattice_9 makeErdosRenyi_3_half makeBA_4_3_2 by blast
qed

lemma edgeCount_two_isolated: "edgeCount \<lparr>gN = 2, adj = [[], []]\<rparr> = Inr 0"
  by code_simp

lemma draws_from_max:
  "nextU32 4294967295 = (253983, 253983)"
  "nextU32 253983 = (4228382207, 4228382207)"
  "nextU32 4228382207 = (1958451267, 1958451267)"
  "nextU32 1958451267 = (4056713434, 4056713434)"
  by (simp_all add: nextU32_def Let_def)

text \<open>
  C4. The claim is that \<open>p = 1\<close> gives the complete graph for every seed. The edge test
  is \<open>rng.random() < p\<close>, and \<open>random()\<close> returns 1 on the draw \<open>0xFFFFFFFF\<close> (see C1):
  with the generator seeded with 1584200935, the only candidate pair of \<open>N = 2\<close> is
  rejected and the graph has no edge instead of one.
\<close>

theorem makeErdosRenyi_p1_misses_edge:
  "makeErdosRenyi 2 1 (RNG_new 1584200935) = Inr (\<lparr>gN = 2, adj = [[], []]\<rparr>, 4056713434)
   \<and> edgeCount \<lparr>gN = 2, adj = [[], []]\<rparr> = Inr 0"
  by (simp add: makeErdosRenyi_def eval_defs nextU32_1584200935 draws_from_max edgeCount_two_isolated)

section \<open>Properties of the payoff model and the update rules\<close>

lemma fold_add_sum_list:
  "fold (\<lambda>j acc. acc + h j) xs (a::real) = a + sum_list (map h xs)"
  by (induction xs arbitrary: a) simp_all

lemma payoff_loop:
  fixes g strat M
  defines "f \<equiv> \<lambda>i. sum_list (map (\<lambda>j. payoffTerm M (js_get strat (int i)) (js_get strat (int j))) (adj g ! i))"
  assumes "\<forall>i\<in>set xs. i < length (adj g) \<and> i < length pay0"
  shows "\<exists>pay. loopE (\<lambda>i pay.
              let si = js_get strat (int i) in
              case js_get (adj g) (int i) of
                None \<Rightarrow> Inl TypeError
              | Some nei \<Rightarrow>
                  Inr (pay[i := fold (\<lambda>j acc. acc + payoffTerm M si (js_get strat (int j))) nei 0]))
            xs pay0 = Inr pay \<and> length pay = length pay0 \<and>
          (\<forall>i<length pay0. pay ! i = (if i \<in> set xs then f i else pay0 ! i))"
  using assms(2)
proof (induction xs arbitrary: pay0)
  case Nil
  then show ?case by simp
next
  case (Cons x xs)
  let ?body = "\<lambda>i pay.
              let si = js_get strat (int i) in
              case js_get (adj g) (int i) of
                None \<Rightarrow> Inl TypeError
              | Some nei \<Rightarrow>
                  Inr (pay[i := fold (\<lambda>j acc. acc + payoffTerm M si (js_get strat (int j))) nei 0])"
  have x: "x < length (adj g)" "x < length pay0" using Cons.prems by simp_all
  have step: "?body x pay0 = Inr (pay0[x := f x])"
    using x by (simp add: js_get_nat f_def fold_add_sum_list)
  have "\<forall>i\<in>set xs. i < length (adj g) \<and> i < length (pay0[x := f x])"
    using Cons.prems by simp
  from Cons.IH [OF this] obtain pay where pay: "loopE ?body xs (pay0[x := f x]) = Inr pay"
    "length pay = length pay0"
    "\<forall>i<length pay0. pay ! i = (if i \<in> set xs then f i else pay0[x := f x] ! i)"
    by auto
  have "loopE ?body (x # xs) pay0 = Inr pay"
    using step pay(1) by simp
  moreover have "\<forall>i<length pay0. pay ! i = (if i \<in> set (x # xs) then f i else pay0 ! i)"
    using pay(3) by (auto simp: nth_list_update)
  ultimately show ?case using pay(2) by blast
qed

lemma payoffTerm_spec:
  assumes "si = 0 \<or> si = 1" "sj = 0 \<or> sj = 1"
  shows "payoffTerm M (Some si) (Some sj) = spec_matrix_entry M si sj"
  using assms by (auto simp: payoffTerm_def spec_matrix_entry_def)

text \<open>
  C9: on a well-formed graph and a binary strategy array of length \<open>N\<close>,
  \<open>computePayoffs\<close> returns an array of length \<open>N\<close> whose entry \<open>i\<close> is the sum, over the
  neighbours \<open>j\<close> of \<open>i\<close>, of the matrix entry selected by \<open>(strategy(i), strategy(j))\<close>.
  The function is pure by its shape: it takes no generator and returns nothing but the
  payoff array, and the graph and the strategies are read only.
\<close>

theorem computePayoffs_spec:
  assumes "graph_ok g" "length strat = gN g" "binary_strategies strat"
  shows "\<exists>pay. computePayoffs g strat M = Inr pay \<and> length pay = gN g \<and>
           (\<forall>i<gN g. pay ! i = (\<Sum>j\<leftarrow>adj g ! i. spec_matrix_entry M (strat ! i) (strat ! j)))"
proof -
  have len: "length (adj g) = gN g" using assms(1) by (rule graph_okD(1))
  have bin: "strat ! i = 0 \<or> strat ! i = 1" if "i < gN g" for i
    using assms(2,3) that by (simp add: binary_strategies_def list_all_length)
  have "\<forall>i\<in>set [0..<gN g]. i < length (adj g) \<and> i < length (replicate (gN g) (0::real))"
    using len by simp
  from payoff_loop [OF this, of strat M] obtain pay where
    pay: "computePayoffs g strat M = Inr pay" "length pay = gN g"
    "\<forall>i<gN g. pay ! i = sum_list (map (\<lambda>j. payoffTerm M (js_get strat (int i)) (js_get strat (int j))) (adj g ! i))"
    unfolding computePayoffs_def by auto
  have "pay ! i = (\<Sum>j\<leftarrow>adj g ! i. spec_matrix_entry M (strat ! i) (strat ! j))" if i: "i < gN g" for i
  proof -
    have "payoffTerm M (js_get strat (int i)) (js_get strat (int j)) = spec_matrix_entry M (strat ! i) (strat ! j)"
      if "j \<in> set (adj g ! i)" for j
    proof -
      have j: "j < gN g" using graph_okD(4) [OF assms(1) i that] .
      show ?thesis
        using i j assms(2) bin [OF i] bin [OF j] by (simp add: js_get_nat payoffTerm_spec)
    qed
    then have eq: "map (\<lambda>j. payoffTerm M (js_get strat (int i)) (js_get strat (int j))) (adj g ! i)
        = map (\<lambda>j. spec_matrix_entry M (strat ! i) (strat ! j)) (adj g ! i)"
      by simp
    from pay(3) i have "pay ! i
        = sum_list (map (\<lambda>j. payoffTerm M (js_get strat (int i)) (js_get strat (int j))) (adj g ! i))"
      by blast
    then show ?thesis by (simp only: eq)
  qed
  with pay(1,2) show ?thesis by blast
qed



theorem computePayoffs_spec_witness:
  "graph_ok \<lparr>gN = 4, adj = [[1, 3], [0, 2], [1, 3], [0, 2]]\<rparr>
   \<and> length [1, 0, 1, 0 :: u8] = gN \<lparr>gN = 4, adj = [[1, 3], [0, 2], [1, 3], [0, 2]]\<rparr>
   \<and> binary_strategies [1, 0, 1, 0]
   \<and> (\<exists>pay. computePayoffs \<lparr>gN = 4, adj = [[1, 3], [0, 2], [1, 3], [0, 2]]\<rparr> [1, 0, 1, 0]
               (donationToMatrix 3 1) = Inr pay \<and>
          length pay = gN \<lparr>gN = 4, adj = [[1, 3], [0, 2], [1, 3], [0, 2]]\<rparr> \<and>
          (\<forall>i<gN \<lparr>gN = 4, adj = [[1, 3], [0, 2], [1, 3], [0, 2]]\<rparr>.
             pay ! i = (\<Sum>j\<leftarrow>adj \<lparr>gN = 4, adj = [[1, 3], [0, 2], [1, 3], [0, 2]]\<rparr> ! i.
                spec_matrix_entry (donationToMatrix 3 1) ([1, 0, 1, 0] ! i) ([1, 0, 1, 0] ! j))))"
proof -
  let ?g = "\<lparr>gN = 4, adj = [[1, 3], [0, 2], [1, 3], [0, 2]]\<rparr>"
  have ok: "graph_ok ?g" using makeRing_4_2 by (rule makeRing_ok)
  have len: "length [1, 0, 1, 0 :: u8] = gN ?g" by simp
  have bin: "binary_strategies [1, 0, 1, 0]" by (simp add: binary_strategies_def)
  from computePayoffs_spec [OF ok len bin, of "donationToMatrix 3 1"] ok len bin
  show ?thesis by blast
qed

lemma strat_set_length [simp]: "length (strat_set strat key v) = length strat"
  by (simp add: strat_set_def split: option.splits)

lemma strat_set_other:
  "i < length strat \<Longrightarrow> key \<noteq> Some (int i) \<Longrightarrow> strat_set strat key v ! i = strat ! i"
  by (auto simp: strat_set_def nth_list_update split: option.splits if_splits)



lemma nextU32_3764646662: "nextU32 3764646662 = (1584200935, 1584200935)"
  by (simp add: nextU32_def Let_def)

lemma computePayoffs_pair_example:
  "computePayoffs \<lparr>gN = 2, adj = [[1], [0]]\<rparr> [1, 1] (donationToMatrix 1 1) = Inr [0, 0]"
  by (simp add: computePayoffs_def upt_rec replicate_unfold js_get_def payoffTerm_def
      donationToMatrix_def Let_def)

text \<open>
  C6. The claim is that no rule changes a fixated array when \<open>mu = 0\<close>. \<open>stepBD\<close> and
  \<open>stepImitationFermi\<close> keep it (the two lemmas below). \<open>stepDB\<close> does not: on two
  connected cooperators with \<open>R = 0\<close> and \<open>w = 1\<close> all fitnesses are 0, \<open>pickWeightedIndex\<close>
  falls back to \<open>rng.int(1)\<close>, which returns 1 on the draw \<open>0xFFFFFFFF\<close> (see C1);
  \<open>neigh[1]\<close> and then \<open>strat[undefined]\<close> are \<open>undefined\<close>, and storing \<open>undefined\<close> into
  the \<open>Uint8Array\<close> writes 0: a defector appears without mutation.
\<close>

theorem stepDB_breaks_fixation:
  "isFixated [1, 1]
   \<and> stepDB \<lparr>gN = 2, adj = [[1], [0]]\<rparr> [1, 1] (donationToMatrix 1 1) 1 0 (RNG_new 3764646662)
       = (Inr 1, [0, 1], 4294967295)
   \<and> \<not> isFixated [0, 1]"
proof -
  have "stepDB \<lparr>gN = 2, adj = [[1], [0]]\<rparr> [1, 1] (donationToMatrix 1 1) 1 0 (RNG_new 3764646662)
       = (Inr 1, [0, 1], 4294967295)"
    unfolding stepDB_def computePayoffs_pair_example
    by (simp add: RNG_int_def js_get_def fitness_def RNG_new_def
      pickWeightedIndex_def num_add_def num_le0_def num_sub_def random_def
      nextU32_3764646662 nextU32_1584200935 Let_def strat_get_def strat_set_def to_u8_def mutate_def)
  moreover have "isFixated [1, 1]" "\<not> isFixated [0, 1]"
    by (simp_all add: isFixated_def js_get_def)
  ultimately show ?thesis by blast
qed

lemma computePayoffs_single_example:
  "computePayoffs \<lparr>gN = 1, adj = [[]]\<rparr> [0] (donationToMatrix 3 1) = Inr [0]"
  by (simp add: computePayoffs_def upt_rec replicate_unfold js_get_def Let_def)

text \<open>
  C10. The claim is that all indices stay in range. \<open>rng.int(N)\<close> returns \<open>N\<close> on the
  draw \<open>0xFFFFFFFF\<close> (see C1), and so does the fallback of \<open>pickWeightedIndex\<close>: with one
  node and the generator seeded with 1584200935, \<open>stepDB\<close> reads \<open>g.adj[1]\<close>, which is
  \<open>undefined\<close>, and throws on \<open>neigh.length\<close>.
\<close>

theorem stepDB_index_out_of_range:
  "RNG_int 1 (RNG_new 1584200935) = (1, 4294967295)
   \<and> pickWeightedIndex [Some 0] (RNG_new 1584200935) = (1, 4294967295)
   \<and> js_get (adj \<lparr>gN = 1, adj = [[]]\<rparr>) 1 = None
   \<and> stepDB \<lparr>gN = 1, adj = [[]]\<rparr> [0] (donationToMatrix 3 1) (1 / 2) 0 (RNG_new 1584200935)
       = (Inl TypeError, [0], 4294967295)"
proof -
  have a: "RNG_int 1 (RNG_new 1584200935) = (1, 4294967295)"
    by (simp add: RNG_int_def random_def RNG_new_def nextU32_1584200935)
  have b: "pickWeightedIndex [Some 0] (RNG_new 1584200935) = (1, 4294967295)"
    using a by (simp add: pickWeightedIndex_def num_add_def num_le0_def)
  have c: "js_get (adj \<lparr>gN = 1, adj = [[]]\<rparr>) 1 = None"
    by (simp add: js_get_def)
  have "stepDB \<lparr>gN = 1, adj = [[]]\<rparr> [0] (donationToMatrix 3 1) (1 / 2) 0 (RNG_new 1584200935)
       = (Inl TypeError, [0], 4294967295)"
    unfolding stepDB_def computePayoffs_single_example
    using a by (simp add: js_get_def)
  with a b c show ?thesis by blast
qed


lemma isFixated_nth:
  assumes "isFixated strat" "i < length strat"
  shows "strat ! i = strat ! 0"
proof (cases i)
  case 0
  then show ?thesis by simp
next
  case (Suc k)
  have "k < length (drop 1 strat)" using assms(2) Suc by simp
  then have "drop 1 strat ! k \<in> set (drop 1 strat)" by (rule nth_mem)
  moreover have "drop 1 strat ! k = strat ! i" using assms(2) Suc by simp
  ultimately have "strat ! i \<in> set (drop 1 strat)" by simp
  then have "Some (strat ! i) = js_get strat 0"
    using assms(1) by (simp add: isFixated_def list_all_iff)
  then show ?thesis using assms(2) by (simp add: js_get_def split: if_splits)
qed

lemma strat_set_same:
  assumes "isFixated strat" "0 \<le> p" "p < int (length strat)"
  shows "strat_set strat key (strat_get strat (Some p)) = strat"
proof -
  have v: "to_u8 (strat_get strat (Some p)) = strat ! nat p"
    using assms(2,3) by (simp add: strat_get_def js_get_def to_u8_def)
  have "strat[nat i := strat ! nat p] = strat" if "0 \<le> i" "i < int (length strat)" for i
  proof -
    have "strat ! nat i = strat ! nat p"
      using isFixated_nth [OF assms(1), of "nat i"] isFixated_nth [OF assms(1), of "nat p"]
        that assms(2,3) by simp
    then show ?thesis by (metis list_update_id)
  qed
  then show ?thesis by (simp add: strat_set_def v split: option.splits)
qed

lemma mutate_zero: "mutate 0 c s = (c, s)"
  by (simp add: mutate_def)

lemma computePayoffs_length:
  assumes "computePayoffs g strat M = Inr pay"
  shows "length pay = gN g"
proof -
  have "length s' = gN g" if "length s = gN g" "(\<lambda>i pay.
              let si = js_get strat (int i) in
              case js_get (adj g) (int i) of
                None \<Rightarrow> Inl TypeError
              | Some nei \<Rightarrow>
                  Inr (pay[i := fold (\<lambda>j acc. acc + payoffTerm M si (js_get strat (int j))) nei 0])) x s = Inr s'"
    for x s s'
    using that by (auto simp: Let_def split: option.splits)
  from loopE_invariant [where P = "\<lambda>p. length p = gN g", OF this _ assms [unfolded computePayoffs_def]]
  show ?thesis by simp
qed

lemma stepBD_preserves_fixation:
  assumes "isFixated strat" "length strat = length (adj g)"
  shows "strat_after (stepBD g strat M w 0 rng) = strat"
  using assms
  by (auto simp: stepBD_def strat_after_def Let_def mutate_zero strat_set_same js_get_def
      split: sum.splits prod.splits option.splits if_splits)

lemma stepImitationFermi_preserves_fixation:
  assumes "isFixated strat" "length strat = gN g"
  shows "strat_after (stepImitationFermi g strat M beta 0 rng) = strat"
proof (cases "computePayoffs g strat M")
  case (Inl e)
  then show ?thesis by (simp add: stepImitationFermi_def strat_after_def)
next
  case (Inr pay)
  have len: "length pay = length strat" using computePayoffs_length [OF Inr] assms(2) by simp
  have adopt: "strat_set strat key (strat_get strat (map_option int j)) = strat"
    if "(case fermi beta p_i (case j of None \<Rightarrow> None | Some j' \<Rightarrow> js_get pay (int j')) of
           None \<Rightarrow> False | Some q \<Rightarrow> x < q)" for key j p_i x
  proof -
    from that obtain j' where j: "j = Some j'" "js_get pay (int j') \<noteq> None"
      by (cases j) (auto simp: fermi_def split: option.splits)
    then have "int j' < int (length strat)" using len by (auto simp: js_get_def split: if_splits)
    then show ?thesis using strat_set_same [OF assms(1), of "int j'" key] j(1) by simp
  qed
  show ?thesis
    unfolding stepImitationFermi_def strat_after_def Inr
    by (auto simp: Let_def mutate_zero adopt split: prod.splits option.splits)
qed

section \<open>Further facts about the generator, the Erdos-Renyi draws and the lattice side\<close>

lemma random_bounds: "0 \<le> fst (random s) \<and> fst (random s) \<le> 1"
proof -
  define u where "u = unat (fst (nextU32 s))"
  have "u < 2 ^ 32"
    unfolding u_def using unsigned_less [of "fst (nextU32 s)", where ?'a = nat] by simp
  then have u: "real u \<le> 4294967295" by simp
  have "fst (random s) = real u / 4294967295"
    unfolding u_def by (simp add: random_def split: prod.splits)
  with u show ?thesis by simp
qed

lemma RNG_int_bounds:
  assumes "0 \<le> b"
  shows "0 \<le> fst (RNG_int b s) \<and> fst (RNG_int b s) \<le> b"
proof -
  have r: "0 \<le> fst (random s)" "fst (random s) \<le> 1" using random_bounds by simp_all
  have "fst (RNG_int b s) = \<lfloor>fst (random s) * real_of_int b\<rfloor>"
    by (simp add: RNG_int_def split: prod.splits)
  moreover have "0 \<le> fst (random s) * real_of_int b" using r(1) assms by simp
  moreover have "fst (random s) * real_of_int b \<le> real_of_int b"
    using mult_left_le_one_le [of "real_of_int b" "fst (random s)"] r assms by simp
  ultimately show ?thesis by (simp add: le_floor_iff floor_le_iff)
qed

lemma random_state: "snd (random s) = snd (nextU32 s)"
  by (simp add: random_def split: prod.splits)

lemma advance_add: "advance (a + b) s = advance b (advance a s)"
  by (induction a arbitrary: s) simp_all

lemma erStep_zero: "erStep 0 i j (g, s) = Inr (g, snd (nextU32 s))"
proof -
  obtain x s' where r: "random s = (x, s')" by (cases "random s")
  then have "0 \<le> x" "s' = snd (nextU32 s)"
    using random_bounds [of s] random_state [of s] by simp_all
  then show ?thesis by (simp add: erStep_def r)
qed

lemma er_inner_zero: "loopE (\<lambda>j. erStep 0 i j) js (g, s) = Inr (g, advance (length js) s)"
  by (induction js arbitrary: s) (simp_all add: erStep_zero)

lemma er_outer_zero:
  "loopE (\<lambda>i. loopE (\<lambda>j. erStep 0 i j) [i + 1..<n]) is (g, s)
     = Inr (g, advance (sum_list (map (\<lambda>i. n - (i + 1)) is)) s)"
  by (induction "is" arbitrary: s) (simp_all add: er_inner_zero advance_add)

lemma erStep_draw:
  assumes "erStep p i j gs = Inr gs'"
  shows "snd gs' = snd (nextU32 (snd gs))"
  using assms
  by (auto simp: erStep_def random_def Let_def split: prod.splits if_splits sum.splits)

lemma er_inner_draws:
  assumes "loopE (\<lambda>j. erStep p i j) js gs = Inr gs'"
  shows "snd gs' = advance (length js) (snd gs)"
  using assms
proof (induction js arbitrary: gs)
  case Nil
  then show ?case by simp
next
  case (Cons j js)
  from Cons.prems obtain gs1 where s: "erStep p i j gs = Inr gs1" "loopE (\<lambda>j. erStep p i j) js gs1 = Inr gs'"
    by (auto split: sum.splits)
  show ?case using Cons.IH [OF s(2)] erStep_draw [OF s(1)] by simp
qed

lemma er_outer_draws:
  assumes "loopE (\<lambda>i. loopE (\<lambda>j. erStep p i j) [i + 1..<n]) is gs = Inr gs'"
  shows "snd gs' = advance (sum_list (map (\<lambda>i. n - (i + 1)) is)) (snd gs)"
  using assms
proof (induction "is" arbitrary: gs)
  case Nil
  then show ?case by simp
next
  case (Cons i "is")
  from Cons.prems obtain gs1 where s: "loopE (\<lambda>j. erStep p i j) [i + 1..<n] gs = Inr gs1"
    "loopE (\<lambda>i. loopE (\<lambda>j. erStep p i j) [i + 1..<n]) is gs1 = Inr gs'"
    by (auto split: sum.splits)
  show ?case using Cons.IH [OF s(2)] er_inner_draws [OF s(1)] by (simp add: advance_add)
qed

lemma pair_count: "sum_list (map (\<lambda>i. n - (i + 1)) [0..<n]) = n * (n - 1) div 2"
proof -
  have "sum_list (map (\<lambda>i. n - (i + 1)) [0..<n]) = (\<Sum>i<n. n - Suc i)"
    by (simp add: sum_list_sum_nth atLeast0LessThan)
  also have "\<dots> = (\<Sum>i<n. i)" by (rule sum.nat_diff_reindex)
  also have "\<dots> = n * (n - 1) div 2"
  proof -
    have "2 * (\<Sum>i<k. i) = k * (k - 1)" for k :: nat
    proof (induction k)
      case 0
      show ?case by simp
    next
      case (Suc k)
      then show ?case by (cases k) (simp_all add: algebra_simps)
    qed
    from this [of n] show ?thesis by (metis nonzero_mult_div_cancel_left zero_neq_numeral)
  qed
  finally show ?thesis .
qed

lemma drawPositions_advance: "drawPositions n s = advance (2 * n) s"
  by (induction n arbitrary: s) (simp_all add: random_state)

lemma makeErdosRenyi_draws:
  assumes "makeErdosRenyi n p rng = Inr (g, rng')"
  shows "rng' = advance (2 * n) (advance (n * (n - 1) div 2) rng)"
proof -
  from assms obtain s where l: "loopE (\<lambda>i. loopE (\<lambda>j. erStep p i j) [i + 1..<n]) [0..<n] (Graph_new n, rng) = Inr (g, s)"
    and r: "rng' = drawPositions n s"
    by (auto simp: makeErdosRenyi_def split: sum.splits prod.splits)
  from er_outer_draws [OF l] have "s = advance (n * (n - 1) div 2) rng"
    unfolding pair_count by simp
  with r show ?thesis by (simp add: drawPositions_advance)
qed

lemma edgeCount_empty: "edgeCount (Graph_new n) = Inr 0"
proof -
  have "\<forall>i\<in>set [0..<n]. i < length (adj (Graph_new n))" by (simp add: Graph_new_def)
  from edgeCount_loop [OF this, of 0] show ?thesis
    by (simp add: edgeCount_def Graph_new_def sum_list_const [where c = 0] cong: map_cong)
qed

lemma makeErdosRenyi_p0:
  "\<exists>rng'. makeErdosRenyi n 0 rng = Inr (Graph_new n, rng') \<and> edgeCount (Graph_new n) = Inr 0"
  unfolding makeErdosRenyi_def er_outer_zero by (simp add: edgeCount_empty)


lemma round_sqrt_from_least:
  assumes "\<forall>k<l0. k * k + k < n"
  shows "n \<le> round_sqrt_from n l0 * round_sqrt_from n l0 + round_sqrt_from n l0
    \<and> (\<forall>k<round_sqrt_from n l0. k * k + k < n)"
  using assms
proof (induction n l0 rule: round_sqrt_from.induct)
  case (1 n l)
  show ?case
  proof (cases "l * l + l < n")
    case True
    then have "\<forall>k<Suc l. k * k + k < n" using "1.prems" by (auto simp: less_Suc_eq)
    from "1.IH" [OF True this] show ?thesis
      using True by (simp add: round_sqrt_from.simps [of n l])
  next
    case False
    then show ?thesis using "1.prems" by (simp add: round_sqrt_from.simps [of n l])
  qed
qed

lemma round_sqrt_is_Math_round_sqrt: "round_sqrt n = nat (round (sqrt (real n)))"
proof -
  define l where "l = round_sqrt n"
  have up: "n \<le> l * l + l" and low: "\<forall>k<l. k * k + k < n"
    using round_sqrt_from_least [of 0 n] by (simp_all add: l_def round_sqrt_def)
  have "real n \<le> real (l * l + l)" using up by (simp only: of_nat_le_iff)
  then have "real n < (real l + 1 / 2)\<^sup>2" by (simp add: power2_eq_square algebra_simps)
  then have u: "sqrt (real n) < real l + 1 / 2" by (intro real_less_lsqrt) simp_all
  have d: "real l - 1 / 2 \<le> sqrt (real n)"
  proof (cases l)
    case 0
    then show ?thesis by (simp add: order_trans [of _ 0])
  next
    case (Suc k)
    then have "k * k + k < n" using low by simp
    then have "k * k + k + 1 \<le> n" by simp
    then have "real (k * k + k + 1) \<le> real n" by (simp only: of_nat_le_iff)
    then have "(real k + 1 / 2)\<^sup>2 \<le> real n" by (simp add: power2_eq_square algebra_simps)
    then have "real k + 1 / 2 \<le> sqrt (real n)" by (rule real_le_rsqrt)
    then show ?thesis using Suc by simp
  qed
  have "round (sqrt (real n)) = int l"
    unfolding round_def using u d by (simp add: floor_eq_iff) 
  then show ?thesis by (simp add: l_def)
qed

section \<open>The elementary event of an update rule\<close>






























end
